theory Spec2Isabelle
  imports Complex_Main "HOL-Library.Word" "HOL-Library.Log_Nat"
begin

unbundle bit_operations_syntax

section \<open>Compile-time parameters of the tree\<close>

text \<open>
  The weight-balanced B-tree is configured by the two macros
  \<open>LEAF_PARAMETER_K\<close> and \<open>BRANCHING_PARAMETER_B\<close>; the traits clamp both to at
  least 8 through \<open>BTREE_MAX\<close> and store them as \<open>unsigned int\<close>.  The slot bounds
  are constants of the 16-bit \<open>width_type\<close>: the initialisers are computed in
  \<open>unsigned int\<close> (or \<open>int\<close>) and truncated.  Values of \<open>size_type\<close> are natural
  numbers below \<open>2\<^sup>6\<^sup>4\<close>; the wrap-around of the arithmetic is written out.
\<close>

record traits =
  LEAF_PARAMETER_K :: nat
  BRANCHING_PARAMETER_B :: nat

definition BTREE_MAX :: "nat \<Rightarrow> nat \<Rightarrow> nat" where
  "BTREE_MAX a b = (if a < b then b else a)"

definition leafparameter_k :: "traits \<Rightarrow> nat" where
  "leafparameter_k t = BTREE_MAX 8 (LEAF_PARAMETER_K t) mod 4294967296"

definition branchingparameter_b :: "traits \<Rightarrow> nat" where
  "branchingparameter_b t = BTREE_MAX 8 (BRANCHING_PARAMETER_B t) mod 4294967296"

definition leafslotmax :: "traits \<Rightarrow> nat" where
  "leafslotmax t = leafparameter_k t mod 65536"

definition leafslotmin :: "traits \<Rightarrow> nat" where
  "leafslotmin t = (leafparameter_k t div 4) mod 65536"

definition designated_leafsize :: "traits \<Rightarrow> nat" where
  "designated_leafsize t = ((leafslotmax t + leafslotmin t) div 2) mod 65536"

definition innerslotmax :: "traits \<Rightarrow> nat" where
  "innerslotmax t = (branchingparameter_b t * 4) mod 65536"

definition innerslotmin :: "traits \<Rightarrow> nat" where
  "innerslotmin t = (branchingparameter_b t div 4) mod 65536"

subsection \<open>Weight bounds per level\<close>

text \<open>
  \<open>ipow\<close> is the square-and-multiply loop of the source.  The base is an \<open>int\<close> and is
  squared in every round, also in the last one; the overflow of that signed
  multiplication is undefined, and is read here as the wrap-around of a
  two's-complement target.  The result is a \<open>size_type\<close>, and \<open>result *= base\<close> converts
  the base to it (sign extension).  The exponent is a level, which is not negative.
\<close>

function ipow_loop :: "64 word \<Rightarrow> 32 word \<Rightarrow> nat \<Rightarrow> 64 word" where
  "ipow_loop result base expo =
     (if expo > 0
      then ipow_loop (if odd expo then result * scast base else result) (base * base) (expo div 2)
      else result)"
  by pat_completeness auto
termination
  by (relation "measure (\<lambda>(result, base, expo). expo)") auto

declare ipow_loop.simps [simp del]

definition ipow :: "nat \<Rightarrow> nat \<Rightarrow> nat" where
  "ipow base expo = unat (ipow_loop 1 (word_of_nat base) expo)"

definition minweight :: "traits \<Rightarrow> nat \<Rightarrow> nat" where
  "minweight t level =
     (ipow (branchingparameter_b t) level * leafparameter_k t mod 18446744073709551616) div 4"

definition maxweight :: "traits \<Rightarrow> nat \<Rightarrow> nat" where
  "maxweight t level =
     ipow (branchingparameter_b t) level * leafparameter_k t mod 18446744073709551616"

text \<open>
  \<open>level - 1\<close> on the unsigned 16-bit \<open>level_type\<close>: the difference is computed
  in \<open>int\<close> and converted back, so level 0 yields 65535.
\<close>

definition level_pred :: "nat \<Rightarrow> nat" where
  "level_pred level = (if level = 0 then 65535 else level - 1)"

definition designated_subtreesize :: "traits \<Rightarrow> nat \<Rightarrow> nat" where
  "designated_subtreesize t level =
     (let num_to_round = ((maxweight t (level_pred level) + minweight t (level_pred level))
                            mod 18446744073709551616) div 2;
          remaining = num_to_round mod designated_leafsize t
      in if remaining = 0 then num_to_round
         else (let diff_in_single_tree_case = remaining;
                   diff_in_extra_tree_case = designated_leafsize t - remaining
               in (num_to_round - remaining
                   + designated_leafsize t
                     * (if diff_in_single_tree_case \<ge> diff_in_extra_tree_case then 1 else 0))
                  mod 18446744073709551616))"





definition num_subtrees :: "nat \<Rightarrow> nat \<Rightarrow> nat" where
  "num_subtrees n subtreesize =
     (let num_subtrees0 = n div subtreesize;
          remaining = n mod subtreesize;
          diff_in_single_tree_case = remaining;
          diff_in_extra_tree_case = subtreesize - remaining;
          num_subtrees1 = num_subtrees0
             + (if diff_in_single_tree_case \<ge> diff_in_extra_tree_case then 1 else 0)
      in num_subtrees1 + (if n > 0 \<and> num_subtrees1 = 0 then 1 else 0))"

text \<open>
  The parallel tree of the repository (the second B-tree header) has its own
  \<open>num_subtrees\<close>, without the last line that forces one subtree for a non-empty range.
\<close>

definition par_num_subtrees :: "nat \<Rightarrow> nat \<Rightarrow> nat" where
  "par_num_subtrees n subtreesize =
     (let num_subtrees0 = n div subtreesize;
          remaining = n mod subtreesize;
          diff_in_single_tree_case = remaining;
          diff_in_extra_tree_case = subtreesize - remaining
      in num_subtrees0
           + (if diff_in_single_tree_case \<ge> diff_in_extra_tree_case then 1 else 0))"

section \<open>Keys, labels and operations\<close>

text \<open>
  The Pareto queue instantiates the tree with a key that extends a label (the two
  unsigned weights, the tree's \<open>min_key_type\<close>) by a node identifier.  The weight type
  itself is not part of the sources at hand; it is an unsigned machine integer of some
  width \<open>'w\<close>, so the weights are of type \<open>'w word\<close>.
\<close>

datatype 'a label_type = Label (first_weight: 'a) (second_weight: 'a)

datatype 'a data_type = NodeLabel (node: nat) (label: "'a label_type")

definition BTreeSetOrderer :: "'w::len word data_type \<Rightarrow> 'w word data_type \<Rightarrow> bool" where
  "BTreeSetOrderer i j =
     (if first_weight (label i) = first_weight (label j)
      then (if second_weight (label i) = second_weight (label j)
            then node i < node j
            else second_weight (label i) < second_weight (label j))
      else first_weight (label i) < first_weight (label j))"

definition key_less :: "'w::len word data_type \<Rightarrow> 'w word data_type \<Rightarrow> bool" where
  "key_less a b = BTreeSetOrderer a b"

definition key_lessequal :: "'w::len word data_type \<Rightarrow> 'w word data_type \<Rightarrow> bool" where
  "key_lessequal a b = (\<not> key_less b a)"

definition key_greaterequal :: "'w::len word data_type \<Rightarrow> 'w word data_type \<Rightarrow> bool" where
  "key_greaterequal a b = (\<not> key_less a b)"

definition key_equal :: "'w::len word data_type \<Rightarrow> 'w word data_type \<Rightarrow> bool" where
  "key_equal a b = (\<not> key_less a b \<and> \<not> key_less b a)"

datatype OpType = INSERT | DELETE

datatype OperationBatchType = INSERTS_ONLY | DELETES_ONLY | INSERTS_AND_DELETES

datatype 'a Operation = Operation (type: OpType) (data: "'a data_type")

text \<open>
  The enumerators carry the values \<open>1\<close> and \<open>-1\<close> (and \<open>2\<close> for a mixed batch); they
  enter 64-bit arithmetic (\<open>long\<close>, \<open>size_t\<close>), where \<open>-1\<close> is the all-ones word.
\<close>

definition OpType_value :: "OpType \<Rightarrow> 64 word" where
  "OpType_value ty = (case ty of INSERT \<Rightarrow> 1 | DELETE \<Rightarrow> - 1)"

definition OperationBatchType_value :: "OperationBatchType \<Rightarrow> 64 word" where
  "OperationBatchType_value bt =
     (case bt of INSERTS_ONLY \<Rightarrow> 1 | DELETES_ONLY \<Rightarrow> - 1 | INSERTS_AND_DELETES \<Rightarrow> 2)"

section \<open>Nodes and the tree object\<close>

text \<open>
  A node is a leaf holding its \<open>slotuse\<close> keys, or an inner node with its level and its
  \<open>slotuse\<close> slots.  Nodes are values here: a slot owns its child, as in the source,
  where no node is ever shared between two slots.
\<close>

datatype 'a node =
    leaf_node (leaf_slotkey: "'a data_type list")
  | inner_node (inner_level: nat) (slot: "'a inner_node_data list")
and 'a inner_node_data =
    inner_node_data (slotkey: "'a data_type") (weight: nat) (childid: "'a node")
      (minimum: "'a label_type")

definition level :: "'a node \<Rightarrow> nat" where
  "level n = (case n of leaf_node ks \<Rightarrow> 0 | inner_node l sl \<Rightarrow> l)"

definition slotuse :: "'a node \<Rightarrow> nat" where
  "slotuse n = (case n of leaf_node ks \<Rightarrow> length ks | inner_node l sl \<Rightarrow> length sl)"

definition isleafnode :: "'a node \<Rightarrow> bool" where
  "isleafnode n = (level n = 0)"

record tree_stats =
  itemcount :: nat
  leaves :: nat
  innernodes :: nat

record UpdateDescriptor =
  rebalancing_needed :: bool
  upd_weight :: nat
  upd_begin :: nat
  upd_end :: nat

text \<open>
  The members of the tree object.  \<open>new_leaves\<close> is the vector \<open>leaves\<close> of the leaves
  created during the current reconstruction; of the per-level scratch arrays
  \<open>subtree_updates_per_level\<close> only their number is kept, the descriptors themselves are
  passed as lists.
\<close>

record 'a btree =
  root :: "'a node option"
  spare_leaf :: "'a node"
  stats :: tree_stats
  updates :: "'a Operation list"
  batch_type :: OperationBatchType
  new_leaves :: "'a node list"
  weightdelta :: "64 word list"
  subtree_updates_per_level :: nat

datatype error =
    NullPointer
  | OutOfBounds
  | LeafIndexOutOfBounds
  | BufferOverflow
  | UninitializedRead
  | SignedOverflow
  | AssertionFailed

text \<open>
  The constructor: no root, a spare leaf allocated without counting it, empty statistics.
  \<open>batch_type\<close> is left uninitialised by the source; the value chosen here is
  overwritten by every \<open>apply_updates\<close>.
\<close>

definition new_btree :: "'a btree" where
  "new_btree =
     \<lparr>root = None, spare_leaf = leaf_node [],
      stats = \<lparr>itemcount = 0, leaves = 0, innernodes = 0\<rparr>,
      updates = [], batch_type = INSERTS_AND_DELETES, new_leaves = [],
      weightdelta = [], subtree_updates_per_level = 0\<rparr>"

definition size_btree :: "'a btree \<Rightarrow> nat" where
  "size_btree s = itemcount (stats s)"

definition empty_btree :: "'a btree \<Rightarrow> bool" where
  "empty_btree s = (size_btree s = 0)"


section \<open>Weight deltas of a batch\<close>

fun weightdelta_loop :: "64 word \<Rightarrow> 'a Operation list \<Rightarrow> 64 word list" where
  "weightdelta_loop val [] = []"
| "weightdelta_loop val (u # us) =
     (let val' = val + OpType_value (type u) in val' # weightdelta_loop val' us)"

text \<open>
  \<open>setOperationsAndComputeWeightDelta\<close> returns the new size and stores the batch; for
  a mixed batch it overwrites the cells \<open>0 .. n\<close> of \<open>weightdelta\<close> with the exclusive
  prefix sums.  The sum \<open>size() + ...\<close> is formed in \<open>size_t\<close>.
\<close>

definition setOperationsAndComputeWeightDelta ::
  "'a btree \<Rightarrow> 'a Operation list \<Rightarrow> OperationBatchType \<Rightarrow> nat \<times> 'a btree" where
  "setOperationsAndComputeWeightDelta s new_updates new_batch_type =
     (let s1 = s\<lparr>updates := new_updates, batch_type := new_batch_type\<rparr>
      in if new_batch_type = INSERTS_AND_DELETES
         then (let wd = (0 # weightdelta_loop 0 new_updates)
                      @ drop (length new_updates + 1) (weightdelta s1);
                   s2 = s1\<lparr>weightdelta := wd\<rparr>
               in (unat ((word_of_nat (size_btree s2) :: 64 word) + wd ! length new_updates), s2))
         else (unat ((word_of_nat (size_btree s1) :: 64 word)
                     + word_of_nat (length new_updates) * OperationBatchType_value new_batch_type),
               s1))"

definition getWeightDelta :: "'a btree \<Rightarrow> nat \<Rightarrow> nat \<Rightarrow> 64 word" where
  "getWeightDelta s ub ue =
     (if batch_type s = INSERTS_AND_DELETES
      then weightdelta s ! ue - weightdelta s ! ub
      else (word_of_nat ue - word_of_nat ub)
           * OperationBatchType_value (batch_type s))"

text \<open>The number of operations of one kind in the range \<open>[i, j)\<close> of a batch.\<close>

definition delta_sum :: "'a Operation list \<Rightarrow> 64 word" where
  "delta_sum us = sum_list (map (\<lambda>u. OpType_value (type u)) us)"

definition count_ops :: "OpType \<Rightarrow> 'a Operation list \<Rightarrow> nat \<Rightarrow> nat \<Rightarrow> nat" where
  "count_ops ty ups i j = length (filter (\<lambda>u. type u = ty) (take (j - i) (drop i ups)))"

section \<open>Binary search on the batch\<close>

text \<open>
  \<open>find_lower\<close> works on \<open>int\<close>: the sum \<open>lo + hi\<close> is formed in 32-bit signed
  arithmetic, whose overflow is undefined and is reported as an error here, as is a
  read outside the batch.  \<open>>> 1\<close> is the arithmetic shift.
\<close>

definition INT_MAX :: int where
  "INT_MAX = 2147483647"

definition INT_MIN :: int where
  "INT_MIN = - 2147483648"

function find_lower ::
  "'w::len word Operation list \<Rightarrow> int \<Rightarrow> int \<Rightarrow> 'w word data_type \<Rightarrow> error + int" where
  "find_lower ups lo hi key =
     (if lo < hi
      then (if lo + hi > INT_MAX \<or> lo + hi < INT_MIN then Inl SignedOverflow
            else (let mid = (lo + hi) div 2
                  in if mid < 0 \<or> mid \<ge> int (length ups) then Inl OutOfBounds
                     else if key_less key (data (ups ! nat mid))
                          then find_lower ups lo mid key
                          else find_lower ups (mid + 1) hi key))
      else Inr hi)"
  by pat_completeness auto
termination
  by (relation "measure (\<lambda>(ups, lo, hi, key). nat (hi - lo))") auto

declare find_lower.simps [simp del]

text \<open>The conversions between \<open>size_type\<close> and \<open>int\<close> at the call of \<open>find_lower\<close>.\<close>

definition size_to_int :: "nat \<Rightarrow> int" where
  "size_to_int n = sint (word_of_nat n :: 32 word)"

definition int_to_size :: "int \<Rightarrow> nat" where
  "int_to_size i = unat (word_of_int i :: 64 word)"

section \<open>The target level of a tree\<close>

text \<open>
  \<open>num_optimal_levels\<close> computes \<open>ceil (log (8.0 * n / (5.0 * k)) / log b)\<close> in
  double precision; the logarithm and the ceiling are read over the reals here.
\<close>

definition num_optimal_levels :: "traits \<Rightarrow> nat \<Rightarrow> nat" where
  "num_optimal_levels t n =
     (if n \<le> designated_leafsize t then 0
      else nat \<lceil>ln ((8 * real n) / (5 * real (leafparameter_k t)))
                / ln (real (branchingparameter_b t))\<rceil>)"

text \<open>
  The parallel tree computes its target level differently: the threshold is the leaf
  capacity, the argument of the logarithm is \<open>2 n / k\<close>, its designated subtree size is
  not rounded, and the level is reduced when a single subtree would result.
\<close>

definition par_designated_subtreesize :: "traits \<Rightarrow> nat \<Rightarrow> nat" where
  "par_designated_subtreesize t l =
     ((maxweight t (level_pred l) + minweight t (level_pred l)) mod 18446744073709551616) div 2"

definition par_num_optimal_levels :: "traits \<Rightarrow> nat \<Rightarrow> nat" where
  "par_num_optimal_levels t n =
     (if n \<le> leafslotmax t then 0
      else (let opt_levels = nat \<lceil>ln (2 * real n / real (leafparameter_k t))
                                  / ln (real (branchingparameter_b t))\<rceil>
            in opt_levels
               - (if par_num_subtrees n (par_designated_subtreesize t opt_levels) = 1
                  then 1 else 0)))"

text \<open>The target level in the words of the specification (section 4.2.2).\<close>

definition optimal_levels_spec :: "traits \<Rightarrow> nat \<Rightarrow> nat" where
  "optimal_levels_spec t new_size =
     (if new_size \<le> designated_leafsize t then 0
      else (let l = nat \<lceil>log (real (branchingparameter_b t))
                            ((8 * real new_size) / (5 * real (leafparameter_k t)))\<rceil>
            in l - (if num_subtrees new_size (designated_subtreesize t l) = 1 then 1 else 0)))"

section \<open>Allocation and release of nodes\<close>

text \<open>
  The model follows the debug build: the statistics are gathered and \<open>BTREE_ASSERT\<close>
  is active.  A failed assertion and any behaviour the language leaves undefined (a
  read or write outside an array, a null pointer, a signed overflow) is an error value.
  The counters are \<open>size_t\<close>; decrementing zero wraps around.
\<close>

definition decrement :: "nat \<Rightarrow> nat" where
  "decrement n = (if n = 0 then 2 ^ 64 - 1 else n - 1)"

definition allocate_leaf :: "'a btree \<Rightarrow> 'a node \<times> 'a btree" where
  "allocate_leaf s = (leaf_node [], s\<lparr>stats := (stats s)\<lparr>leaves := leaves (stats s) + 1\<rparr>\<rparr>)"

definition allocate_leaf_without_count :: "'a btree \<Rightarrow> 'a node \<times> 'a btree" where
  "allocate_leaf_without_count s = (leaf_node [], s)"

definition allocate_inner :: "'a btree \<Rightarrow> nat \<Rightarrow> 'a node \<times> 'a btree" where
  "allocate_inner s l =
     (inner_node l [], s\<lparr>stats := (stats s)\<lparr>innernodes := innernodes (stats s) + 1\<rparr>\<rparr>)"

definition free_node :: "'a btree \<Rightarrow> 'a node \<Rightarrow> 'a btree" where
  "free_node s n =
     (case n of
        leaf_node ks \<Rightarrow> s\<lparr>stats := (stats s)\<lparr>leaves := decrement (leaves (stats s))\<rparr>\<rparr>
      | inner_node l sl \<Rightarrow>
          s\<lparr>stats := (stats s)\<lparr>innernodes := decrement (innernodes (stats s))\<rparr>\<rparr>)"

fun clear_recursive :: "'a btree \<Rightarrow> 'a node \<Rightarrow> 'a btree"
  and clear_slots :: "'a btree \<Rightarrow> 'a inner_node_data list \<Rightarrow> 'a btree" where
  "clear_recursive s (leaf_node ks) = free_node s (leaf_node ks)"
| "clear_recursive s (inner_node l sl) = free_node (clear_slots s sl) (inner_node l sl)"
| "clear_slots s [] = s"
| "clear_slots s (inner_node_data k w c m # sls) = clear_slots (clear_recursive s c) sls"

definition clear :: "'a btree \<Rightarrow> error + 'a btree" where
  "clear s =
     (let s1 = (case root s of None \<Rightarrow> s
                | Some r \<Rightarrow> (clear_recursive s r)\<lparr>root := None\<rparr>)
      in if innernodes (stats s1) \<noteq> 0 then Inl AssertionFailed
         else if leaves (stats s1) \<noteq> 0 then Inl AssertionFailed
         else Inr s1)"

text \<open>The number of leaves and of inner nodes of a subtree.\<close>

fun count_leaves :: "'a node \<Rightarrow> nat"
  and count_leaves_slots :: "'a inner_node_data list \<Rightarrow> nat" where
  "count_leaves (leaf_node ks) = 1"
| "count_leaves (inner_node l sl) = count_leaves_slots sl"
| "count_leaves_slots [] = 0"
| "count_leaves_slots (inner_node_data k w c m # sls) = count_leaves c + count_leaves_slots sls"

fun count_inner :: "'a node \<Rightarrow> nat"
  and count_inner_slots :: "'a inner_node_data list \<Rightarrow> nat" where
  "count_inner (leaf_node ks) = 0"
| "count_inner (inner_node l sl) = 1 + count_inner_slots sl"
| "count_inner_slots [] = 0"
| "count_inner_slots (inner_node_data k w c m # sls) = count_inner c + count_inner_slots sls"

section \<open>Pareto minima\<close>

text \<open>
  The test of both loops of \<open>find_pareto_minima\<close>: the candidate improves the second
  weight of the running minimum or ties with it in both weights.
\<close>

definition improves :: "'w::len word label_type \<Rightarrow> 'w word label_type \<Rightarrow> bool" where
  "improves c mn =
     (second_weight c < second_weight mn
      \<or> (first_weight c = first_weight mn \<and> second_weight c = second_weight mn))"

fun find_pareto_minima_leaf ::
  "'w::len word data_type list \<Rightarrow> 'w word label_type \<Rightarrow> 'w word Operation list
     \<Rightarrow> 'w word Operation list" where
  "find_pareto_minima_leaf [] mn minima = minima"
| "find_pareto_minima_leaf (k # ks) mn minima =
     (if improves (label k) mn
      then find_pareto_minima_leaf ks (label k) (minima @ [Operation DELETE k])
      else find_pareto_minima_leaf ks mn minima)"

fun find_pareto_minima_node ::
  "'w::len word node \<Rightarrow> 'w word label_type \<Rightarrow> 'w word Operation list
     \<Rightarrow> 'w word Operation list"
  and find_pareto_minima_inner ::
  "'w::len word inner_node_data list \<Rightarrow> 'w word label_type \<Rightarrow> 'w word Operation list
     \<Rightarrow> 'w word Operation list" where
  "find_pareto_minima_node (leaf_node ks) prefix_minima minima =
     find_pareto_minima_leaf ks prefix_minima minima"
| "find_pareto_minima_node (inner_node l sl) prefix_minima minima =
     find_pareto_minima_inner sl prefix_minima minima"
| "find_pareto_minima_inner [] mn minima = minima"
| "find_pareto_minima_inner (inner_node_data k w c m # sls) mn minima =
     (if improves m mn
      then find_pareto_minima_inner sls m (find_pareto_minima_node c mn minima)
      else find_pareto_minima_inner sls mn minima)"

text \<open>
  The public entry point asserts that the output sequence is empty and starts at the
  root, which it dereferences without a check.
\<close>

definition find_pareto_minima ::
  "'w::len word btree \<Rightarrow> 'w word label_type \<Rightarrow> 'w word Operation list
     \<Rightarrow> error + 'w word Operation list" where
  "find_pareto_minima s prefix_minima minima =
     (if minima \<noteq> [] then Inl AssertionFailed
      else (case root s of None \<Rightarrow> Inl NullPointer
            | Some r \<Rightarrow> Inr (find_pareto_minima_node r prefix_minima minima)))"

text \<open>
  The sentinel of the Pareto queue: the smallest value of the weight type as first
  weight and the largest as second weight.
\<close>

definition min_label :: "'w::len word label_type" where
  "min_label = Label 0 (- 1)"

text \<open>
  \<open>std::min_element\<close> with the comparison of the second weights: the first element
  among those of least second weight; on an empty range it returns the end iterator,
  whose dereference is an error.
\<close>

fun min_element_loop ::
  "'w::len word label_type \<Rightarrow> 'w word label_type list \<Rightarrow> 'w word label_type" where
  "min_element_loop best [] = best"
| "min_element_loop best (x # xs) =
     min_element_loop (if second_weight x < second_weight best then x else best) xs"

definition min_element :: "'w::len word label_type list \<Rightarrow> error + 'w word label_type" where
  "min_element xs = (case xs of [] \<Rightarrow> Inl UninitializedRead | x # xs' \<Rightarrow> Inr (min_element_loop x xs'))"

definition set_minimum :: "'a inner_node_data \<Rightarrow> 'a label_type \<Rightarrow> 'a inner_node_data" where
  "set_minimum sl m = inner_node_data (slotkey sl) (weight sl) (childid sl) m"

definition set_slotkey :: "'a inner_node_data \<Rightarrow> 'a data_type \<Rightarrow> 'a inner_node_data" where
  "set_slotkey sl k = inner_node_data k (weight sl) (childid sl) (minimum sl)"

definition set_weight :: "'a inner_node_data \<Rightarrow> nat \<Rightarrow> 'a inner_node_data" where
  "set_weight sl w = inner_node_data (slotkey sl) w (childid sl) (minimum sl)"

definition set_childid :: "'a inner_node_data \<Rightarrow> 'a node \<Rightarrow> 'a inner_node_data" where
  "set_childid sl c = inner_node_data (slotkey sl) (weight sl) c (minimum sl)"

definition set_min_element ::
  "'w::len word inner_node_data \<Rightarrow> 'w word node \<Rightarrow> error + 'w word inner_node_data" where
  "set_min_element sl n =
     (case min_element (case n of leaf_node ks \<Rightarrow> map label ks
                        | inner_node l sls \<Rightarrow> map minimum sls) of
        Inl e \<Rightarrow> Inl e
      | Inr m \<Rightarrow> Inr (set_minimum sl m))"

definition update_router :: "'w::len word data_type \<Rightarrow> 'w word data_type \<Rightarrow> 'w word data_type" where
  "update_router router new_router =
     (if \<not> key_equal router new_router then new_router else router)"

section \<open>Updating a leaf in place\<close>

text \<open>The operations \<open>updates[b .. e)\<close> of the running batch.\<close>

definition updates_range :: "'a btree \<Rightarrow> nat \<Rightarrow> nat \<Rightarrow> error + 'a Operation list" where
  "updates_range s b e =
     (if b \<le> e \<and> e \<le> length (updates s) then Inr (take (e - b) (drop b (updates s)))
      else Inl OutOfBounds)"

text \<open>
  \<open>result->slotkey[out++] = k\<close> on the spare leaf, whose array has \<open>leafslotmax\<close>
  cells; \<open>out\<close> is the number of keys written so far.
\<close>

definition put_key :: "traits \<Rightarrow> 'a data_type list \<Rightarrow> 'a data_type \<Rightarrow> error + 'a data_type list" where
  "put_key t out k = (if length out \<ge> leafslotmax t then Inl BufferOverflow else Inr (out @ [k]))"

text \<open>
  The two inner loops.  The source leaf is read through the keys not yet consumed
  (\<open>leaf->slotkey[in ..]\<close>).  The loop of an INSERT checks \<open>in < slotuse\<close>; the loop of a
  DELETE does not, and runs off the leaf when no key stops it.
\<close>

fun copy_while_less ::
  "traits \<Rightarrow> 'w::len word data_type list \<Rightarrow> 'w word data_type \<Rightarrow> 'w word data_type list
     \<Rightarrow> error + ('w word data_type list \<times> 'w word data_type list)" where
  "copy_while_less t [] key out = Inr ([], out)"
| "copy_while_less t (k # ks) key out =
     (if key_less k key
      then (case put_key t out k of Inl e \<Rightarrow> Inl e
            | Inr out' \<Rightarrow> copy_while_less t ks key out')
      else Inr (k # ks, out))"

fun copy_while_less_unchecked ::
  "traits \<Rightarrow> 'w::len word data_type list \<Rightarrow> 'w word data_type \<Rightarrow> 'w word data_type list
     \<Rightarrow> error + ('w word data_type list \<times> 'w word data_type list)" where
  "copy_while_less_unchecked t [] key out = Inl OutOfBounds"
| "copy_while_less_unchecked t (k # ks) key out =
     (if key_less k key
      then (case put_key t out k of Inl e \<Rightarrow> Inl e
            | Inr out' \<Rightarrow> copy_while_less_unchecked t ks key out')
      else Inr (k # ks, out))"

fun update_leaf_loop ::
  "traits \<Rightarrow> 'w::len word Operation list \<Rightarrow> 'w word data_type list \<Rightarrow> 'w word data_type list
     \<Rightarrow> error + ('w word data_type list \<times> 'w word data_type list)" where
  "update_leaf_loop t [] ks out = Inr (ks, out)"
| "update_leaf_loop t (u # us) ks out =
     (case type u of
        DELETE \<Rightarrow>
          (case copy_while_less_unchecked t ks (data u) out of Inl e \<Rightarrow> Inl e
           | Inr (ks', out') \<Rightarrow> update_leaf_loop t us (tl ks') out')
      | INSERT \<Rightarrow>
          (case copy_while_less t ks (data u) out of Inl e \<Rightarrow> Inl e
           | Inr (ks', out') \<Rightarrow>
               (case put_key t out' (data u) of Inl e \<Rightarrow> Inl e
                | Inr out'' \<Rightarrow> update_leaf_loop t us ks' out'')))"

text \<open>
  \<open>update_leaf_in_current_tree\<close>: merge into the spare leaf, copy the rest of the old
  leaf behind it, set minimum and router of the slot, and exchange the two leaves.
\<close>

definition update_leaf_in_current_tree ::
  "traits \<Rightarrow> 'w::len word btree \<Rightarrow> 'w word inner_node_data \<Rightarrow> UpdateDescriptor
     \<Rightarrow> error + ('w word btree \<times> 'w word inner_node_data)" where
  "update_leaf_in_current_tree t s sl upd =
     (case childid sl of
        inner_node l sls \<Rightarrow> Inl AssertionFailed
      | leaf_node ks \<Rightarrow>
          (case updates_range s (upd_begin upd) (upd_end upd) of Inl e \<Rightarrow> Inl e
           | Inr ups \<Rightarrow>
               (case update_leaf_loop t ups ks [] of Inl e \<Rightarrow> Inl e
                | Inr (rest, out) \<Rightarrow>
                    if length out + length rest > leafslotmax t then Inl BufferOverflow
                    else (let result = leaf_node (out @ rest)
                          in case set_min_element sl result of Inl e \<Rightarrow> Inl e
                             | Inr sl1 \<Rightarrow>
                                 if out @ rest = [] then Inl OutOfBounds
                                 else Inr (s\<lparr>spare_leaf := childid sl\<rparr>,
                                           set_childid
                                             (set_slotkey sl1
                                                (update_router (slotkey sl1) (last (out @ rest))))
                                             result)))))"

section \<open>Rewriting a leaf into the new leaves\<close>

text \<open>
  The leaves of a reconstruction are fresh; each cell of their arrays is written before
  it is read.  A new leaf is kept as the list of the cells written so far, and a write
  that would leave a gap of unwritten cells is reported.
\<close>

definition write_key ::
  "traits \<Rightarrow> 'a btree \<Rightarrow> nat \<Rightarrow> nat \<Rightarrow> 'a data_type \<Rightarrow> error + 'a btree" where
  "write_key t s leaf_number out k =
     (if leaf_number \<ge> length (new_leaves s) then Inl LeafIndexOutOfBounds
      else (case new_leaves s ! leaf_number of
              inner_node l sls \<Rightarrow> Inl AssertionFailed
            | leaf_node xs \<Rightarrow>
                if out \<ge> leafslotmax t then Inl BufferOverflow
                else if out > length xs then Inl UninitializedRead
                else Inr (s\<lparr>new_leaves := (new_leaves s)
                            [leaf_number := leaf_node (if out = length xs then xs @ [k]
                                                        else xs[out := k])]\<rparr>)))"

definition set_slotuse :: "'a btree \<Rightarrow> nat \<Rightarrow> nat \<Rightarrow> error + 'a btree" where
  "set_slotuse s leaf_number n =
     (if leaf_number \<ge> length (new_leaves s) then Inl LeafIndexOutOfBounds
      else (case new_leaves s ! leaf_number of
              inner_node l sls \<Rightarrow> Inl AssertionFailed
            | leaf_node xs \<Rightarrow>
                if n > length xs then Inl UninitializedRead
                else Inr (s\<lparr>new_leaves := (new_leaves s)[leaf_number := leaf_node (take n xs)]\<rparr>)))"

definition hasNextLeaf :: "'a btree \<Rightarrow> nat \<Rightarrow> bool" where
  "hasNextLeaf s leaf_count = (leaf_count + 1 < length (new_leaves s))"

text \<open>
  One write \<open>result->slotkey[out++] = k\<close> followed by the test that moves on to the
  next new leaf; \<open>has_more\<close> is the extra condition \<open>in < leaf->slotuse\<close> of the last loop.
\<close>

definition put_and_advance ::
  "traits \<Rightarrow> 'a btree \<times> nat \<times> nat \<Rightarrow> 'a data_type \<Rightarrow> bool \<Rightarrow> error + ('a btree \<times> nat \<times> nat)" where
  "put_and_advance t w k has_more =
     (case w of (s, leaf_number, out) \<Rightarrow>
        (case write_key t s leaf_number out k of Inl e \<Rightarrow> Inl e
         | Inr s1 \<Rightarrow>
             if out + 1 = designated_leafsize t \<and> hasNextLeaf s1 leaf_number \<and> has_more
             then (case set_slotuse s1 leaf_number (designated_leafsize t) of Inl e \<Rightarrow> Inl e
                   | Inr s2 \<Rightarrow> Inr (s2, leaf_number + 1, 0))
             else Inr (s1, leaf_number, out + 1)))"

fun rewrite_while_less ::
  "traits \<Rightarrow> 'w::len word data_type list \<Rightarrow> 'w word data_type \<Rightarrow> 'w word btree \<times> nat \<times> nat
     \<Rightarrow> error + ('w word data_type list \<times> 'w word btree \<times> nat \<times> nat)" where
  "rewrite_while_less t [] key w = Inr ([], w)"
| "rewrite_while_less t (k # ks) key w =
     (if key_less k key
      then (case put_and_advance t w k True of Inl e \<Rightarrow> Inl e
            | Inr w' \<Rightarrow> rewrite_while_less t ks key w')
      else Inr (k # ks, w))"

fun rewrite_while_less_unchecked ::
  "traits \<Rightarrow> 'w::len word data_type list \<Rightarrow> 'w word data_type \<Rightarrow> 'w word btree \<times> nat \<times> nat
     \<Rightarrow> error + ('w word data_type list \<times> 'w word btree \<times> nat \<times> nat)" where
  "rewrite_while_less_unchecked t [] key w = Inl OutOfBounds"
| "rewrite_while_less_unchecked t (k # ks) key w =
     (if key_less k key
      then (case put_and_advance t w k True of Inl e \<Rightarrow> Inl e
            | Inr w' \<Rightarrow> rewrite_while_less_unchecked t ks key w')
      else Inr (k # ks, w))"

fun rewrite_loop ::
  "traits \<Rightarrow> 'w::len word Operation list \<Rightarrow> 'w word data_type list \<Rightarrow> 'w word btree \<times> nat \<times> nat
     \<Rightarrow> error + ('w word data_type list \<times> 'w word btree \<times> nat \<times> nat)" where
  "rewrite_loop t [] ks w = Inr (ks, w)"
| "rewrite_loop t (u # us) ks w =
     (case type u of
        DELETE \<Rightarrow>
          (case rewrite_while_less_unchecked t ks (data u) w of Inl e \<Rightarrow> Inl e
           | Inr (ks', w') \<Rightarrow> rewrite_loop t us (tl ks') w')
      | INSERT \<Rightarrow>
          (case rewrite_while_less t ks (data u) w of Inl e \<Rightarrow> Inl e
           | Inr (ks', w') \<Rightarrow>
               (case put_and_advance t w' (data u) True of Inl e \<Rightarrow> Inl e
                | Inr w'' \<Rightarrow> rewrite_loop t us ks' w'')))"

fun rewrite_rest ::
  "traits \<Rightarrow> 'a data_type list \<Rightarrow> 'a btree \<times> nat \<times> nat \<Rightarrow> error + ('a btree \<times> nat \<times> nat)" where
  "rewrite_rest t [] w = Inr w"
| "rewrite_rest t (k # ks) w =
     (case put_and_advance t w k (ks \<noteq> []) of Inl e \<Rightarrow> Inl e
      | Inr w' \<Rightarrow> rewrite_rest t ks w')"

definition write_updated_leaf_to_new_tree ::
  "traits \<Rightarrow> 'w::len word btree \<Rightarrow> 'w word node \<Rightarrow> nat \<Rightarrow> UpdateDescriptor
     \<Rightarrow> error + 'w word btree" where
  "write_updated_leaf_to_new_tree t s n rank upd =
     (let leaf_number0 = rank div designated_leafsize t;
          offset_in_leaf0 = rank mod designated_leafsize t;
          squeezed = (leaf_number0 \<ge> length (new_leaves s));
          leaf_number = (if squeezed then length (new_leaves s) - 1 else leaf_number0);
          offset_in_leaf = (if squeezed then rank - leaf_number * designated_leafsize t
                            else offset_in_leaf0)
      in if new_leaves s = [] then Inl LeafIndexOutOfBounds
         else (case n of
                 inner_node l sls \<Rightarrow> Inl AssertionFailed
               | leaf_node ks \<Rightarrow>
                   (case updates_range s (upd_begin upd) (upd_end upd) of Inl e \<Rightarrow> Inl e
                    | Inr ups \<Rightarrow>
                        (case rewrite_loop t ups ks (s, leaf_number, offset_in_leaf) of
                           Inl e \<Rightarrow> Inl e
                         | Inr (rest, w) \<Rightarrow>
                             (case rewrite_rest t rest w of Inl e \<Rightarrow> Inl e
                              | Inr (s', leaf_number', out') \<Rightarrow>
                                  set_slotuse s' leaf_number' out')))))"

definition allocate_new_leaves :: "traits \<Rightarrow> 'a btree \<Rightarrow> nat \<Rightarrow> 'a btree" where
  "allocate_new_leaves t s n =
     (let leaf_count = num_subtrees n (designated_leafsize t)
      in s\<lparr>new_leaves := replicate leaf_count (leaf_node []),
           stats := (stats s)\<lparr>leaves := leaves (stats s) + leaf_count\<rparr>\<rparr>)"

section \<open>Building inner levels over the new leaves\<close>

text \<open>
  A slot whose fields have not been assigned yet (the \<open>fake_slot\<close> of the source, or a
  cell of a fresh inner node).  Its router and minimum are overwritten before they are
  used; \<open>update_router\<close> compares the old router first, which has no effect on the
  router it leaves behind.
\<close>

definition uninitialized_slot :: "'w::len word inner_node_data" where
  "uninitialized_slot = inner_node_data (NodeLabel 0 (Label 0 0)) 0 (leaf_node []) (Label 0 0)"

text \<open>The common end of the functions that fill a slot: minimum, router, child.\<close>

definition finish_slot ::
  "'w::len word inner_node_data \<Rightarrow> 'w word node \<Rightarrow> error + 'w word inner_node_data" where
  "finish_slot sl n =
     (case set_min_element sl n of Inl e \<Rightarrow> Inl e
      | Inr sl1 \<Rightarrow>
          (case n of
             leaf_node ks \<Rightarrow>
               if ks = [] then Inl OutOfBounds
               else Inr (set_childid (set_slotkey sl1 (update_router (slotkey sl1) (last ks))) n)
           | inner_node l sls \<Rightarrow>
               if sls = [] then Inl OutOfBounds
               else Inr (set_childid
                           (set_slotkey sl1 (update_router (slotkey sl1) (slotkey (last sls)))) n)))"

function create_subtree_from_leaves ::
  "traits \<Rightarrow> 'w::len word btree \<Rightarrow> 'w word inner_node_data \<Rightarrow> bool \<Rightarrow> nat \<Rightarrow> nat \<Rightarrow> nat
     \<Rightarrow> error + ('w word btree \<times> 'w word inner_node_data \<times> nat)"
  and create_subtrees_loop ::
  "traits \<Rightarrow> 'w::len word btree \<Rightarrow> nat \<Rightarrow> nat \<Rightarrow> nat \<Rightarrow> nat \<Rightarrow> nat \<Rightarrow> nat
     \<Rightarrow> error + ('w word btree \<times> 'w word inner_node_data list)" where
  "create_subtree_from_leaves t s sl reuse_outnode lvl rank_begin rank_end =
     (if rank_end \<le> rank_begin then Inl AssertionFailed
      else if lvl = 0
      then (if rank_begin div designated_leafsize t \<ge> length (new_leaves s)
            then Inl LeafIndexOutOfBounds
            else (let result = new_leaves s ! (rank_begin div designated_leafsize t)
                  in if rank_end - rank_begin \<noteq> slotuse result then Inl AssertionFailed
                     else (case finish_slot sl result of Inl e \<Rightarrow> Inl e
                           | Inr sl' \<Rightarrow> Inr (s, sl', 1))))
      else (let n = rank_end - rank_begin;
                designated_treesize = designated_subtreesize t lvl;
                subtrees = num_subtrees n designated_treesize;
                (result, s1) = (if reuse_outnode then (childid sl, s) else allocate_inner s lvl)
            in case result of
                 leaf_node ks \<Rightarrow> Inl AssertionFailed
               | inner_node l old_slots \<Rightarrow>
                   if subtrees + length old_slots > innerslotmax t then Inl AssertionFailed
                   else (case create_subtrees_loop t s1 lvl designated_treesize
                                 (length old_slots) (subtrees + length old_slots)
                                 rank_begin rank_end of
                           Inl e \<Rightarrow> Inl e
                         | Inr (s2, new_slots) \<Rightarrow>
                             (case finish_slot sl (inner_node l (old_slots @ new_slots)) of
                                Inl e \<Rightarrow> Inl e
                              | Inr sl' \<Rightarrow> Inr (s2, sl', subtrees)))))"
| "create_subtrees_loop t s lvl designated_treesize i new_slotuse rank rank_end =
     (if i < new_slotuse \<and> lvl > 0
      then (let w = (if i \<noteq> new_slotuse - 1 then designated_treesize else rank_end - rank)
            in case create_subtree_from_leaves t s (set_weight uninitialized_slot w) False
                      (lvl - 1) rank (rank + w) of
                 Inl e \<Rightarrow> Inl e
               | Inr (s1, sl1, c) \<Rightarrow>
                   (case create_subtrees_loop t s1 lvl designated_treesize (i + 1) new_slotuse
                           (rank + w) rank_end of
                      Inl e \<Rightarrow> Inl e
                    | Inr (s2, sls) \<Rightarrow> Inr (s2, sl1 # sls)))
      else Inr (s, []))"
  by pat_completeness auto
termination
  by (relation "measures
       [\<lambda>x. case x of
          Inl (t, s, sl, reuse_outnode, lvl, rank_begin, rank_end) \<Rightarrow> 2 * lvl + 1
        | Inr (t, s, lvl, designated_treesize, i, new_slotuse, rank, rank_end) \<Rightarrow> 2 * lvl,
        \<lambda>x. case x of
          Inl (t, s, sl, reuse_outnode, lvl, rank_begin, rank_end) \<Rightarrow> 0
        | Inr (t, s, lvl, designated_treesize, i, new_slotuse, rank, rank_end) \<Rightarrow>
            new_slotuse - i]")
    auto

declare create_subtree_from_leaves.simps [simp del] create_subtrees_loop.simps [simp del]

section \<open>The recursive update\<close>

definition hasUpdates :: "UpdateDescriptor \<Rightarrow> bool" where
  "hasUpdates u = (upd_begin u \<noteq> upd_end u)"

text \<open>The new weight \<open>weight + getWeightDelta (...)\<close> is formed in \<open>size_t\<close>.\<close>

definition scheduleSubTreeUpdate ::
  "'a btree \<Rightarrow> nat \<Rightarrow> nat \<Rightarrow> nat \<Rightarrow> nat \<Rightarrow> nat \<Rightarrow> UpdateDescriptor" where
  "scheduleSubTreeUpdate s w minw maxw subupd_begin subupd_end =
     (let w' = unat ((word_of_nat w :: 64 word) + getWeightDelta s subupd_begin subupd_end)
      in \<lparr>rebalancing_needed = (w' < minw \<or> w' > maxw), upd_weight = w',
          upd_begin = subupd_begin, upd_end = subupd_end\<rparr>)"

text \<open>
  The distribution of the operations \<open>[subupd_begin, upd_end)\<close> over the slots of an
  inner node: every slot but the last takes the operations up to its router.
\<close>

fun schedule_loop ::
  "'w::len word btree \<Rightarrow> nat \<Rightarrow> nat \<Rightarrow> nat \<Rightarrow> 'w word inner_node_data list \<Rightarrow> nat
     \<Rightarrow> error + UpdateDescriptor list" where
  "schedule_loop s minw maxw ue [] subupd_begin = Inr []"
| "schedule_loop s minw maxw ue [sl] subupd_begin =
     Inr [scheduleSubTreeUpdate s (weight sl) minw maxw subupd_begin ue]"
| "schedule_loop s minw maxw ue (sl # sls) subupd_begin =
     (case find_lower (updates s) (size_to_int subupd_begin) (size_to_int ue) (slotkey sl) of
        Inl e \<Rightarrow> Inl e
      | Inr r \<Rightarrow>
          (case schedule_loop s minw maxw ue sls (int_to_size r) of Inl e \<Rightarrow> Inl e
           | Inr ds \<Rightarrow>
               Inr (scheduleSubTreeUpdate s (weight sl) minw maxw subupd_begin (int_to_size r)
                    # ds)))"

text \<open>
  The inner loop of a rewrite session: the run of slots starting at the current one
  that need rebalancing, extended while the run is non-empty and lighter than the
  designated subtree size.  The result is the length of the run and its weight.
\<close>

fun find_run :: "UpdateDescriptor list \<Rightarrow> nat \<Rightarrow> bool \<Rightarrow> nat \<Rightarrow> nat \<times> nat" where
  "find_run [] designated_treesize openrebalancing_region w = (0, w)"
| "find_run (u # us) designated_treesize openrebalancing_region w =
     (if rebalancing_needed u
         \<or> (openrebalancing_region \<and> w \<noteq> 0 \<and> w < designated_treesize)
      then (case find_run us designated_treesize True (w + upd_weight u) of
              (n, w') \<Rightarrow> (n + 1, w'))
      else (0, w))"

text \<open>The measure of the recursion: the number of slots and nodes below.\<close>

fun node_measure :: "'a node \<Rightarrow> nat"
  and slots_measure :: "'a inner_node_data list \<Rightarrow> nat" where
  "node_measure (leaf_node ks) = 1"
| "node_measure (inner_node l sl) = 1 + slots_measure sl"
| "slots_measure [] = 0"
| "slots_measure (inner_node_data k w c m # sls) = 1 + node_measure c + slots_measure sls"

text \<open>
  \<open>update\<close>, \<open>updateSubTreesInRange\<close> (on the slots of its range, with their
  descriptors) and the outer loop of a rewrite session (on the slots not yet visited,
  with the slots of the new node written so far).
\<close>

function update ::
  "traits \<Rightarrow> 'w::len word btree \<Rightarrow> 'w word inner_node_data \<Rightarrow> nat \<Rightarrow> UpdateDescriptor \<Rightarrow> bool
     \<Rightarrow> error + ('w word btree \<times> 'w word inner_node_data)"
  and updateSubTreesInRange ::
  "traits \<Rightarrow> 'w::len word btree \<Rightarrow> 'w word inner_node_data list \<Rightarrow> UpdateDescriptor list
     \<Rightarrow> nat \<Rightarrow> bool \<Rightarrow> error + ('w word btree \<times> 'w word inner_node_data list)"
  and rewrite_session ::
  "traits \<Rightarrow> 'w::len word btree \<Rightarrow> nat \<Rightarrow> nat \<Rightarrow> 'w word inner_node_data list
     \<Rightarrow> UpdateDescriptor list \<Rightarrow> 'w word inner_node_data list
     \<Rightarrow> error + ('w word btree \<times> 'w word inner_node_data list)" where
  "update t s sl rank upd rewrite_subtree =
     (case childid sl of
        leaf_node ks \<Rightarrow>
          if rewrite_subtree
          then (case write_updated_leaf_to_new_tree t s (childid sl) rank upd of
                  Inl e \<Rightarrow> Inl e
                | Inr s1 \<Rightarrow> Inr (free_node s1 (childid sl), sl))
          else update_leaf_in_current_tree t s sl upd
      | inner_node l sls \<Rightarrow>
          if l \<ge> subtree_updates_per_level s \<or> sls = [] then Inl OutOfBounds
          else (case schedule_loop s (minweight t (level_pred l)) (maxweight t (level_pred l))
                       (upd_end upd) sls (upd_begin upd) of
                  Inl e \<Rightarrow> Inl e
                | Inr subtree_updates \<Rightarrow>
                    if \<not> list_ex rebalancing_needed subtree_updates \<or> rewrite_subtree
                    then (case updateSubTreesInRange t s sls subtree_updates rank
                                 rewrite_subtree of
                            Inl e \<Rightarrow> Inl e
                          | Inr (s1, sls1) \<Rightarrow>
                              (case finish_slot sl (inner_node l sls1) of Inl e \<Rightarrow> Inl e
                               | Inr sl1 \<Rightarrow>
                                   Inr (if rewrite_subtree then free_node s1 (childid sl1) else s1,
                                        sl1)))
                    else (case rewrite_session t (snd (allocate_inner s l)) l
                                 (designated_subtreesize t l) sls subtree_updates [] of
                            Inl e \<Rightarrow> Inl e
                          | Inr (s1, result_slots) \<Rightarrow>
                              (case finish_slot sl (inner_node l result_slots) of Inl e \<Rightarrow> Inl e
                               | Inr sl1 \<Rightarrow> Inr (free_node s1 (childid sl), sl1)))))"
| "updateSubTreesInRange t s sls us subtree_rank rewrite_subtree =
     (case sls of
        [] \<Rightarrow> Inr (s, [])
      | sl # sls' \<Rightarrow>
          (case us of
             [] \<Rightarrow> Inl OutOfBounds
           | u # us' \<Rightarrow>
               (case (if upd_weight u = 0 then Inr (clear_recursive s (childid sl), sl)
                      else if rewrite_subtree \<or> hasUpdates u
                      then (case update t s sl subtree_rank u rewrite_subtree of
                              Inl e \<Rightarrow> Inl e
                            | Inr (s1, sl1) \<Rightarrow> Inr (s1, set_weight sl1 (upd_weight u)))
                      else Inr (s, sl)) of
                  Inl e \<Rightarrow> Inl e
                | Inr (s1, sl1) \<Rightarrow>
                    (case updateSubTreesInRange t s1 sls' us' (subtree_rank + upd_weight u)
                            rewrite_subtree of
                       Inl e \<Rightarrow> Inl e
                     | Inr (s2, sls2) \<Rightarrow> Inr (s2, sl1 # sls2)))))"
| "rewrite_session t s l designated_treesize sls us result_slots =
     (case sls of
        [] \<Rightarrow> Inr (s, result_slots)
      | sl # sls' \<Rightarrow>
          (case find_run us designated_treesize False 0 of
             (run, weight_of_defective_range) \<Rightarrow>
               if run > 0
               then (if weight_of_defective_range = 0
                     then rewrite_session t (clear_slots s (take run sls)) l designated_treesize
                            (drop run sls) (drop run us) result_slots
                     else (case updateSubTreesInRange t
                                  (allocate_new_leaves t s weight_of_defective_range)
                                  (take run sls) (take run us) 0 True of
                             Inl e \<Rightarrow> Inl e
                           | Inr (s1, freed) \<Rightarrow>
                               (case create_subtree_from_leaves t s1
                                       (set_childid uninitialized_slot (inner_node l result_slots))
                                       True l 0 weight_of_defective_range of
                                  Inl e \<Rightarrow> Inl e
                                | Inr (s2, fake_slot, subtrees) \<Rightarrow>
                                    rewrite_session t s2 l designated_treesize
                                      (drop run sls) (drop run us)
                                      (case childid fake_slot of leaf_node ks \<Rightarrow> []
                                       | inner_node l' rs \<Rightarrow> rs))))
               else (case us of
                       [] \<Rightarrow> Inl OutOfBounds
                     | u # us' \<Rightarrow>
                         if length result_slots \<ge> innerslotmax t then Inl BufferOverflow
                         else (case (if hasUpdates u
                                     then update t s (set_weight sl (upd_weight u))
                                            18446744073709551615 u False
                                     else Inr (s, set_weight sl (upd_weight u))) of
                                 Inl e \<Rightarrow> Inl e
                               | Inr (s1, sl1) \<Rightarrow>
                                   rewrite_session t s1 l designated_treesize sls' us'
                                     (result_slots @ [sl1])))))"
  by pat_completeness auto

lemma slots_measure_Cons:
  "slots_measure (sl # sls) = 1 + node_measure (childid sl) + slots_measure sls"
  by (cases sl) simp

lemma slots_measure_append: "slots_measure (xs @ ys) = slots_measure xs + slots_measure ys"
  by (induction xs) (simp_all add: slots_measure_Cons)

lemma slots_measure_take: "slots_measure (take n xs) \<le> slots_measure xs"
  using slots_measure_append [of "take n xs" "drop n xs"] by simp

lemma slots_measure_drop_le: "slots_measure (drop n xs) \<le> slots_measure xs"
  using slots_measure_append [of "take n xs" "drop n xs"] by simp

lemma slots_measure_drop:
  assumes "0 < n" and "xs \<noteq> []"
  shows "slots_measure (drop n xs) < slots_measure xs"
proof -
  obtain a list where xs: "xs = a # list" using assms(2) by (cases xs) auto
  obtain m where n: "n = Suc m" using assms(1) by (cases n) auto
  have "slots_measure (drop n xs) = slots_measure (drop m list)" by (simp add: xs n)
  also have "\<dots> \<le> slots_measure list" by (rule slots_measure_drop_le)
  also have "\<dots> < slots_measure xs" by (simp add: xs slots_measure_Cons)
  finally show ?thesis .
qed

lemma slots_measure_child:
  "childid sl = inner_node l sls \<Longrightarrow> slots_measure sls < slots_measure [sl]"
  by (simp add: slots_measure_Cons)

lemma childid_set_weight [simp]: "childid (set_weight sl w) = childid sl"
  by (simp add: set_weight_def)

lemma slots_measure_take_cases:
  "slots_measure (take n xs) < slots_measure xs \<or> slots_measure (take n xs) = slots_measure xs"
  using slots_measure_take [of n xs] by (simp add: le_less)

lemma slots_measure_drop_Cons:
  "0 < n \<Longrightarrow> slots_measure (drop n (x # xs)) < Suc (node_measure (childid x) + slots_measure xs)"
  using slots_measure_drop [of n "x # xs"] by (simp add: slots_measure_Cons)

lemma slots_measure_take_Cons:
  "slots_measure (take n (x # xs)) \<noteq> Suc (node_measure (childid x) + slots_measure xs)
     \<Longrightarrow> slots_measure (take n (x # xs)) < Suc (node_measure (childid x) + slots_measure xs)"
  using slots_measure_take [of n "x # xs"] by (simp add: slots_measure_Cons)

lemma slots_measure_pos: "slots_measure [] \<noteq> slots_measure xs \<Longrightarrow> slots_measure [] < slots_measure xs"
  by simp

termination update
  apply (relation "measures
       [\<lambda>x. case x of
          Inl (t, s, sl, rank, upd, rewrite_subtree) \<Rightarrow> slots_measure [sl]
        | Inr (Inl (t, s, sls, us, subtree_rank, rewrite_subtree)) \<Rightarrow> slots_measure sls
        | Inr (Inr (t, s, l, designated_treesize, sls, us, result_slots)) \<Rightarrow> slots_measure sls,
        \<lambda>x. case x of
          Inl (t, s, sl, rank, upd, rewrite_subtree) \<Rightarrow> 0
        | Inr (Inl (t, s, sls, us, subtree_rank, rewrite_subtree)) \<Rightarrow> 1
        | Inr (Inr (t, s, l, designated_treesize, sls, us, result_slots)) \<Rightarrow> 2]")
  apply (auto simp: slots_measure_Cons slots_measure_drop_Cons slots_measure_take_Cons
                slots_measure_pos
              simp del: slots_measure.simps)
  done


declare update.simps [simp del] updateSubTreesInRange.simps [simp del]
  rewrite_session.simps [simp del]

section \<open>The bulk update\<close>

text \<open>
  \<open>apply_updates\<close> in three steps: the weight deltas and the new item count; the root
  leaf of an empty tree; the decision whether the root is rebuilt, and the update.
\<close>

definition apply_updates_begin ::
  "'a btree \<Rightarrow> 'a Operation list \<Rightarrow> OperationBatchType \<Rightarrow> nat \<times> 'a btree" where
  "apply_updates_begin s new_updates new_batch_type =
     (case setOperationsAndComputeWeightDelta s new_updates new_batch_type of
        (new_size, s1) \<Rightarrow> (new_size, s1\<lparr>stats := (stats s1)\<lparr>itemcount := new_size\<rparr>\<rparr>))"

definition ensure_root :: "'a btree \<Rightarrow> 'a node \<times> 'a btree" where
  "ensure_root s =
     (case root s of
        None \<Rightarrow> (case allocate_leaf s of (n, s1) \<Rightarrow> (n, s1\<lparr>root := Some n\<rparr>))
      | Some r \<Rightarrow> (r, s))"

definition rebuild_needed ::
  "traits \<Rightarrow> 'a btree \<Rightarrow> 'a node \<Rightarrow> nat \<Rightarrow> bool" where
  "rebuild_needed t s r lvl =
     ((lvl < level r \<and> size_btree s < minweight t (level r)) \<or> size_btree s > maxweight t (level r))"

definition apply_updates ::
  "traits \<Rightarrow> 'w::len word btree \<Rightarrow> 'w word Operation list \<Rightarrow> OperationBatchType
     \<Rightarrow> error + 'w word btree" where
  "apply_updates t s new_updates new_batch_type =
     (case apply_updates_begin s new_updates new_batch_type of
        (new_size, s1) \<Rightarrow>
          if new_size = 0 then clear s1
          else (case ensure_root s1 of
                  (r, s2) \<Rightarrow>
                    (let lvl = num_optimal_levels t new_size;
                         rebuild = rebuild_needed t s2 r lvl;
                         upd = \<lparr>rebalancing_needed = rebuild, upd_weight = new_size,
                                upd_begin = 0, upd_end = length new_updates\<rparr>;
                         s3 = (if rebuild
                               then allocate_new_leaves t
                                      (s2\<lparr>subtree_updates_per_level :=
                                            subtree_updates_per_level s2 + (lvl + 1 - level r)\<rparr>)
                                      new_size
                               else s2)
                     in case update t s3 (set_childid uninitialized_slot r) 0 upd rebuild of
                          Inl e \<Rightarrow> Inl e
                        | Inr (s4, fake_slot) \<Rightarrow>
                            if rebuild
                            then (case create_subtree_from_leaves t s4 fake_slot False lvl 0
                                         new_size of
                                    Inl e \<Rightarrow> Inl e
                                  | Inr (s5, fake_slot', subtrees) \<Rightarrow>
                                      Inr (s5\<lparr>root := Some (childid fake_slot')\<rparr>))
                            else Inr (s4\<lparr>root := Some (childid fake_slot)\<rparr>))))"

section \<open>Verification of the invariants\<close>

fun adjacent_lessequal :: "'w::len word data_type list \<Rightarrow> bool" where
  "adjacent_lessequal (a # b # ks) = (key_lessequal a b \<and> adjacent_lessequal (b # ks))"
| "adjacent_lessequal ks = True"

fun verify_node ::
  "traits \<Rightarrow> bool \<Rightarrow> 'w::len word node \<Rightarrow> tree_stats
     \<Rightarrow> error + ('w word data_type \<times> 'w word data_type \<times> tree_stats)"
  and verify_slots ::
  "traits \<Rightarrow> bool \<Rightarrow> nat \<Rightarrow> 'w::len word inner_node_data list \<Rightarrow> 'w word data_type option
     \<Rightarrow> tree_stats \<Rightarrow> error + ('w word data_type option \<times> tree_stats)" where
  "verify_node t is_root (leaf_node ks) vstats =
     (if \<not> adjacent_lessequal ks then Inl AssertionFailed
      else if \<not> (is_root \<or> length ks \<ge> minweight t 0) then Inl AssertionFailed
      else if \<not> length ks \<le> maxweight t 0 then Inl AssertionFailed
      else if ks = [] then Inl UninitializedRead
      else Inr (hd ks, last ks,
                vstats\<lparr>leaves := leaves vstats + 1, itemcount := itemcount vstats + length ks\<rparr>))"
| "verify_node t is_root (inner_node l sls) vstats =
     (if \<not> adjacent_lessequal (map slotkey sls) then Inl AssertionFailed
      else (case verify_slots t is_root l sls None
                   (vstats\<lparr>innernodes := innernodes vstats + 1\<rparr>) of
              Inl e \<Rightarrow> Inl e
            | Inr (minkey, vstats') \<Rightarrow>
                (case minkey of None \<Rightarrow> Inl UninitializedRead
                 | Some mk \<Rightarrow> Inr (mk, slotkey (last sls), vstats'))))"
| "verify_slots t is_root l [] prev vstats = Inr (None, vstats)"
| "verify_slots t is_root l (inner_node_data k w c m # sls) prev vstats =
     (if level c + 1 \<noteq> l then Inl AssertionFailed
      else if \<not> (is_root \<or> w \<ge> minweight t (level_pred l)) then Inl AssertionFailed
      else if \<not> w \<le> maxweight t (level_pred l) then Inl AssertionFailed
      else (case verify_node t False c vstats of
              Inl e \<Rightarrow> Inl e
            | Inr (subminkey, submaxkey, vstats1) \<Rightarrow>
                if w \<noteq> itemcount vstats1 - itemcount vstats then Inl AssertionFailed
                else if (case prev of None \<Rightarrow> False
                         | Some p \<Rightarrow> \<not> key_greaterequal subminkey p)
                then Inl AssertionFailed
                else if \<not> key_equal k submaxkey then Inl AssertionFailed
                else (case verify_slots t is_root l sls (Some k) vstats1 of
                        Inl e \<Rightarrow> Inl e
                      | Inr (mk, vstats2) \<Rightarrow> Inr (Some subminkey, vstats2))))"

definition verify :: "traits \<Rightarrow> 'w::len word btree \<Rightarrow> error + unit" where
  "verify t s =
     (case root s of
        None \<Rightarrow> Inr ()
      | Some r \<Rightarrow>
          (case verify_node t True r \<lparr>itemcount = 0, leaves = 0, innernodes = 0\<rparr> of
             Inl e \<Rightarrow> Inl e
           | Inr (minkey, maxkey, vstats) \<Rightarrow>
               if itemcount vstats \<noteq> itemcount (stats s) then Inl AssertionFailed
               else if leaves vstats \<noteq> leaves (stats s) then Inl AssertionFailed
               else if innernodes vstats \<noteq> innernodes (stats s) then Inl AssertionFailed
               else Inr ()))"

section \<open>Predicates of the specification\<close>

text \<open>The index of the current new leaf lies within the vector of new leaves.\<close>

definition leaf_index_ok :: "'a btree \<times> nat \<times> nat \<Rightarrow> bool" where
  "leaf_index_ok w = (case w of (s, leaf_number, out) \<Rightarrow> leaf_number < length (new_leaves s))"

text \<open>The keys of the operations of one kind in a batch.\<close>

definition op_keys :: "OpType \<Rightarrow> 'a Operation list \<Rightarrow> 'a data_type list" where
  "op_keys ty us = map data (filter (\<lambda>u. type u = ty) us)"

text \<open>
  The preconditions of \<open>apply_updates\<close> for the operations that reach a leaf with keys
  \<open>ks\<close>: sorted by key with no key twice, every DELETE on a key of the leaf, no INSERT
  of a key of the leaf.
\<close>

definition leaf_batch_ok :: "'w::len word data_type list \<Rightarrow> 'w word Operation list \<Rightarrow> bool" where
  "leaf_batch_ok ks us =
     (sorted_wrt key_less (map data us)
      \<and> list_all (\<lambda>u. (type u = DELETE \<and> data u \<in> set ks)
                        \<or> (type u = INSERT \<and> data u \<notin> set ks)) us)"




text \<open>The keys of a tree in order, and the weight bounds of the balance invariant.\<close>

fun node_keys :: "'a node \<Rightarrow> 'a data_type list"
  and slots_keys :: "'a inner_node_data list \<Rightarrow> 'a data_type list" where
  "node_keys (leaf_node ks) = ks"
| "node_keys (inner_node l sls) = slots_keys sls"
| "slots_keys [] = []"
| "slots_keys (inner_node_data k w c m # sls) = node_keys c @ slots_keys sls"

fun spec_weight_bounds :: "traits \<Rightarrow> bool \<Rightarrow> 'a node \<Rightarrow> bool"
  and spec_weight_bounds_slots :: "traits \<Rightarrow> 'a inner_node_data list \<Rightarrow> bool" where
  "spec_weight_bounds t is_root (leaf_node ks) =
     ((is_root \<or> minweight t 0 \<le> length ks) \<and> length ks \<le> maxweight t 0)"
| "spec_weight_bounds t is_root (inner_node l sls) =
     ((is_root \<or> minweight t l \<le> length (slots_keys sls))
      \<and> length (slots_keys sls) \<le> maxweight t l
      \<and> spec_weight_bounds_slots t sls)"
| "spec_weight_bounds_slots t [] = True"
| "spec_weight_bounds_slots t (inner_node_data k w c m # sls) =
     (spec_weight_bounds t False c \<and> spec_weight_bounds_slots t sls)"

definition spec_weight_invariant :: "traits \<Rightarrow> 'a btree \<Rightarrow> bool" where
  "spec_weight_invariant t s =
     (case root s of None \<Rightarrow> True | Some r \<Rightarrow> spec_weight_bounds t True r)"

definition tree_keys :: "'a btree \<Rightarrow> 'a data_type list" where
  "tree_keys s = (case root s of None \<Rightarrow> [] | Some r \<Rightarrow> node_keys r)"

text \<open>
  Dominance of labels as the specification defines it, the Pareto-minimal keys of a list
  of keys, and the invariant of the slot minima.
\<close>

definition dominates :: "'w::len word label_type \<Rightarrow> 'w word label_type \<Rightarrow> bool" where
  "dominates a b =
     (first_weight a \<le> first_weight b \<and> second_weight a \<le> second_weight b \<and> a \<noteq> b)"

definition pareto_minimal :: "'w::len word data_type list \<Rightarrow> 'w word data_type \<Rightarrow> bool" where
  "pareto_minimal ks k = (\<not> list_ex (\<lambda>k'. dominates (label k') (label k)) ks)"

fun minima_ok :: "'w::len word node \<Rightarrow> bool"
  and minima_ok_slots :: "'w::len word inner_node_data list \<Rightarrow> bool" where
  "minima_ok (leaf_node ks) = True"
| "minima_ok (inner_node l sls) = minima_ok_slots sls"
| "minima_ok_slots [] = True"
| "minima_ok_slots (inner_node_data k w c m # sls) =
     (min_element (map label (node_keys c)) = Inr m \<and> minima_ok c \<and> minima_ok_slots sls)"

section \<open>Example trees\<close>

text \<open>A tree of four keys in two leaves under an inner root, with \<open>k = b = 8\<close>.\<close>

definition example_tree :: "32 word btree" where
  "example_tree =
     new_btree
       \<lparr>root := Some (inner_node 1
                 [inner_node_data (NodeLabel 2 (Label 2 7)) 2
                    (leaf_node [NodeLabel 1 (Label 1 9), NodeLabel 2 (Label 2 7)]) (Label 2 7),
                  inner_node_data (NodeLabel 4 (Label 4 3)) 2
                    (leaf_node [NodeLabel 3 (Label 3 8), NodeLabel 4 (Label 4 3)]) (Label 4 3)]),
        stats := \<lparr>itemcount = 4, leaves = 2, innernodes = 1\<rparr>,
        subtree_updates_per_level := 2\<rparr>"


text \<open>The tree of the keys 1 to 8 in a single leaf, which is full for \<open>k = 8\<close>.\<close>

definition first_keys :: "nat \<Rightarrow> 32 word data_type list" where
  "first_keys n = map (\<lambda>i. NodeLabel i (Label (of_nat i) 0)) [1..<Suc n]"



text \<open>
  The tree of the keys 1 to 9 as built from the empty tree, and the tree left by deleting
  the keys 7, 8 and 9 from it.
\<close>

definition nine_key_tree :: "32 word btree" where
  "nine_key_tree =
     new_btree
       \<lparr>root := Some (inner_node 1
                 [inner_node_data (NodeLabel 5 (Label 5 0)) 5 (leaf_node (take 5 (first_keys 9)))
                    (Label 1 0),
                  inner_node_data (NodeLabel 9 (Label 9 0)) 4 (leaf_node (drop 5 (first_keys 9)))
                    (Label 6 0)]),
        stats := \<lparr>itemcount = 9, leaves = 2, innernodes = 1\<rparr>,
        updates := map (Operation INSERT) (first_keys 9),
        batch_type := INSERTS_ONLY,
        new_leaves := [leaf_node (take 5 (first_keys 9)), leaf_node (drop 5 (first_keys 9))],
        subtree_updates_per_level := 2\<rparr>"

definition underflow_tree :: "32 word btree" where
  "underflow_tree =
     new_btree
       \<lparr>root := Some (inner_node 1
                 [inner_node_data (NodeLabel 5 (Label 5 0)) 5 (leaf_node (take 5 (first_keys 9)))
                    (Label 1 0),
                  inner_node_data (NodeLabel 6 (Label 6 0)) 1 (leaf_node [NodeLabel 6 (Label 6 0)])
                    (Label 6 0)]),
        stats := \<lparr>itemcount = 6, leaves = 2, innernodes = 1\<rparr>,
        updates := map (Operation DELETE) (drop 6 (first_keys 9)),
        batch_type := DELETES_ONLY,
        new_leaves := [leaf_node [NodeLabel 6 (Label 6 0)]],
        subtree_updates_per_level := 2\<rparr>"


text \<open>
  A tree whose only key has the largest second weight, and a tree of nine keys with
  distinct weights as built from the empty tree.
\<close>

definition lone_max_tree :: "32 word btree" where
  "lone_max_tree =
     new_btree
       \<lparr>root := Some (leaf_node [NodeLabel 1 (Label 5 (- 1))]),
        stats := \<lparr>itemcount = 1, leaves = 1, innernodes = 0\<rparr>,
        updates := [Operation INSERT (NodeLabel 1 (Label 5 (- 1)))],
        batch_type := INSERTS_ONLY\<rparr>"

definition frontier_keys :: "32 word data_type list" where
  "frontier_keys =
     [NodeLabel 1 (Label 11 19), NodeLabel 2 (Label 12 17), NodeLabel 3 (Label 13 18),
      NodeLabel 4 (Label 14 13), NodeLabel 5 (Label 15 16), NodeLabel 6 (Label 16 15),
      NodeLabel 7 (Label 17 12), NodeLabel 8 (Label 18 14), NodeLabel 9 (Label 19 11)]"

definition frontier_tree :: "32 word btree" where
  "frontier_tree =
     new_btree
       \<lparr>root := Some (inner_node 1
                 [inner_node_data (NodeLabel 5 (Label 15 16)) 5 (leaf_node (take 5 frontier_keys))
                    (Label 14 13),
                  inner_node_data (NodeLabel 9 (Label 19 11)) 4 (leaf_node (drop 5 frontier_keys))
                    (Label 19 11)]),
        stats := \<lparr>itemcount = 9, leaves = 2, innernodes = 1\<rparr>,
        updates := map (Operation INSERT) frontier_keys,
        batch_type := INSERTS_ONLY,
        new_leaves := [leaf_node (take 5 frontier_keys), leaf_node (drop 5 frontier_keys)],
        subtree_updates_per_level := 2\<rparr>"

section \<open>Properties of the parameters\<close>





lemma leafparameter_k_eq:
  "LEAF_PARAMETER_K t < 4294967296 \<Longrightarrow> leafparameter_k t = BTREE_MAX 8 (LEAF_PARAMETER_K t)"
  by (simp add: leafparameter_k_def BTREE_MAX_def)

lemma branchingparameter_b_eq:
  "BRANCHING_PARAMETER_B t < 4294967296 \<Longrightarrow>
     branchingparameter_b t = BTREE_MAX 8 (BRANCHING_PARAMETER_B t)"
  by (simp add: branchingparameter_b_def BTREE_MAX_def)

lemma leafparameter_k_ge: "LEAF_PARAMETER_K t < 4294967296 \<Longrightarrow> 8 \<le> leafparameter_k t"
  by (simp add: leafparameter_k_def BTREE_MAX_def)

lemma branchingparameter_b_ge:
  "BRANCHING_PARAMETER_B t < 4294967296 \<Longrightarrow> 8 \<le> branchingparameter_b t"
  by (simp add: branchingparameter_b_def BTREE_MAX_def)

text \<open>A leaf parameter that fits \<open>width_type\<close> is not truncated.\<close>

lemma widths_untruncated:
  assumes "LEAF_PARAMETER_K t < 65536"
  shows "leafslotmax t = leafparameter_k t"
    and "leafslotmin t = leafparameter_k t div 4"
    and "designated_leafsize t = (leafparameter_k t + leafparameter_k t div 4) div 2"
    and "8 \<le> leafparameter_k t" and "leafparameter_k t < 65536"
proof -
  have k: "leafparameter_k t = BTREE_MAX 8 (LEAF_PARAMETER_K t)"
    using assms by (simp add: leafparameter_k_eq)
  show ge: "8 \<le> leafparameter_k t" and lt: "leafparameter_k t < 65536"
    using assms by (simp_all add: k BTREE_MAX_def)
  show m: "leafslotmax t = leafparameter_k t" using lt by (simp add: leafslotmax_def)
  have "leafparameter_k t div 4 < 65536" using lt by simp
  then show n: "leafslotmin t = leafparameter_k t div 4" by (simp add: leafslotmin_def)
  have "(leafparameter_k t + leafparameter_k t div 4) div 2 < 65536" using lt by simp
  then show "designated_leafsize t = (leafparameter_k t + leafparameter_k t div 4) div 2"
    by (simp add: designated_leafsize_def m n)
qed

lemma designated_leafsize_pos: "LEAF_PARAMETER_K t < 65536 \<Longrightarrow> 0 < designated_leafsize t"
  using widths_untruncated(3,4) [of t] by simp





lemma traits_8_8:
  "leafparameter_k \<lparr>LEAF_PARAMETER_K = 8, BRANCHING_PARAMETER_B = 8\<rparr> = 8"
  "branchingparameter_b \<lparr>LEAF_PARAMETER_K = 8, BRANCHING_PARAMETER_B = 8\<rparr> = 8"
  "leafslotmax \<lparr>LEAF_PARAMETER_K = 8, BRANCHING_PARAMETER_B = 8\<rparr> = 8"
  "leafslotmin \<lparr>LEAF_PARAMETER_K = 8, BRANCHING_PARAMETER_B = 8\<rparr> = 2"
  "designated_leafsize \<lparr>LEAF_PARAMETER_K = 8, BRANCHING_PARAMETER_B = 8\<rparr> = 5"
  "innerslotmax \<lparr>LEAF_PARAMETER_K = 8, BRANCHING_PARAMETER_B = 8\<rparr> = 32"
  by (simp_all add: leafparameter_k_def branchingparameter_b_def BTREE_MAX_def leafslotmax_def
      leafslotmin_def designated_leafsize_def innerslotmax_def)

lemma ipow_8_low: "ipow 8 0 = 1" "ipow 8 (Suc 0) = 8" "ipow 8 1 = 8"
  by (simp_all add: ipow_def ipow_loop.simps)

lemma weights_8_8:
  "minweight \<lparr>LEAF_PARAMETER_K = 8, BRANCHING_PARAMETER_B = 8\<rparr> 0 = 2"
  "maxweight \<lparr>LEAF_PARAMETER_K = 8, BRANCHING_PARAMETER_B = 8\<rparr> 0 = 8"
  "minweight \<lparr>LEAF_PARAMETER_K = 8, BRANCHING_PARAMETER_B = 8\<rparr> (Suc 0) = 16"
  "maxweight \<lparr>LEAF_PARAMETER_K = 8, BRANCHING_PARAMETER_B = 8\<rparr> (Suc 0) = 64"
  "minweight \<lparr>LEAF_PARAMETER_K = 8, BRANCHING_PARAMETER_B = 8\<rparr> 1 = 16"
  "maxweight \<lparr>LEAF_PARAMETER_K = 8, BRANCHING_PARAMETER_B = 8\<rparr> 1 = 64"
  by (simp_all add: minweight_def maxweight_def ipow_8_low traits_8_8)

lemma designated_subtreesize_8_8_1:
  "designated_subtreesize \<lparr>LEAF_PARAMETER_K = 8, BRANCHING_PARAMETER_B = 8\<rparr> 1 = 5"
  "designated_subtreesize \<lparr>LEAF_PARAMETER_K = 8, BRANCHING_PARAMETER_B = 8\<rparr> (Suc 0) = 5"
  by (simp_all add: designated_subtreesize_def level_pred_def weights_8_8 traits_8_8 Let_def)






section \<open>Subtree counts\<close>

lemma num_subtrees_ge_1: "0 < n \<Longrightarrow> 1 \<le> num_subtrees n s"
  by (simp add: num_subtrees_def Let_def)

section \<open>The weight-delta prefix sum\<close>

lemma weightdelta_loop_length: "length (weightdelta_loop v us) = length us"
  by (induction us arbitrary: v) (simp_all add: Let_def)

lemma weightdelta_loop_nth:
  "m \<le> length us \<Longrightarrow> (v # weightdelta_loop v us) ! m = v + delta_sum (take m us)"
proof (induction us arbitrary: v m)
  case Nil
  then show ?case by (simp add: delta_sum_def)
next
  case (Cons u us)
  show ?case
  proof (cases m)
    case 0
    then show ?thesis by (simp add: delta_sum_def)
  next
    case (Suc m')
    with Cons.prems have "m' \<le> length us" by simp
    from Cons.IH [OF this, of "v + OpType_value (type u)"] Suc
    show ?thesis by (simp add: Let_def delta_sum_def add.assoc)
  qed
qed

lemma delta_sum_append: "delta_sum (xs @ ys) = delta_sum xs + delta_sum ys"
  by (simp add: delta_sum_def)

lemma delta_sum_counts:
  "delta_sum us = word_of_int (int (length (filter (\<lambda>u. type u = INSERT) us))
                              - int (length (filter (\<lambda>u. type u = DELETE) us)))"
proof (induction us)
  case Nil
  then show ?case by (simp add: delta_sum_def)
next
  case (Cons u us)
  then show ?case
    by (cases "type u") (simp_all add: delta_sum_def OpType_value_def)
qed

lemma take_split: "i \<le> j \<Longrightarrow> take j us = take i us @ take (j - i) (drop i us)"
  by (metis le_add_diff_inverse take_add)

lemma delta_sum_range:
  assumes "i \<le> j"
  shows "delta_sum (take j us) - delta_sum (take i us)
       = word_of_int (int (count_ops INSERT us i j) - int (count_ops DELETE us i j))"
proof -
  have "delta_sum (take j us) = delta_sum (take i us) + delta_sum (take (j - i) (drop i us))"
    using take_split [OF assms, of us] by (metis delta_sum_append)
  then have "delta_sum (take j us) - delta_sum (take i us) = delta_sum (take (j - i) (drop i us))"
    by simp
  also have "\<dots> = word_of_int (int (count_ops INSERT us i j) - int (count_ops DELETE us i j))"
    unfolding count_ops_def by (rule delta_sum_counts)
  finally show ?thesis .
qed

lemma count_ops_le: "count_ops ty us i j \<le> length us"
proof -
  have "count_ops ty us i j \<le> length (take (j - i) (drop i us))"
    unfolding count_ops_def by (rule length_filter_le)
  also have "\<dots> \<le> length us" by simp
  finally show ?thesis .
qed

lemma sint_count_diff:
  assumes "length us < 2 ^ 63"
  shows "sint (word_of_int (int (count_ops INSERT us i j) - int (count_ops DELETE us i j)) :: 64 word)
       = int (count_ops INSERT us i j) - int (count_ops DELETE us i j)"
proof -
  have "count_ops INSERT us i j < 2 ^ 63"
    using count_ops_le [of INSERT us i j] assms by linarith
  then have "int (count_ops INSERT us i j) < int (2 ^ 63)"
    by (simp only: of_nat_less_iff)
  then have a: "int (count_ops INSERT us i j) < 2 ^ 63" by simp
  have "count_ops DELETE us i j < 2 ^ 63"
    using count_ops_le [of DELETE us i j] assms by linarith
  then have "int (count_ops DELETE us i j) < int (2 ^ 63)"
    by (simp only: of_nat_less_iff)
  then have b: "int (count_ops DELETE us i j) < 2 ^ 63" by simp
  have "signed_take_bit (64 - 1)
          (int (count_ops INSERT us i j) - int (count_ops DELETE us i j))
        = int (count_ops INSERT us i j) - int (count_ops DELETE us i j)"
    by (rule signed_take_bit_int_eq_self) (use a b in simp_all)
  then show ?thesis
    unfolding sint_sbintrunc' by simp
qed


lemma setOps_mixed_weightdelta_nth:
  assumes "m \<le> length ups"
  shows "weightdelta (snd (setOperationsAndComputeWeightDelta s ups INSERTS_AND_DELETES)) ! m
       = delta_sum (take m ups)"
proof -
  have "weightdelta (snd (setOperationsAndComputeWeightDelta s ups INSERTS_AND_DELETES))
      = (0 # weightdelta_loop 0 ups) @ drop (length ups + 1) (weightdelta s)"
    by (simp add: setOperationsAndComputeWeightDelta_def Let_def)
  moreover have "m < length (0 # weightdelta_loop 0 ups)"
    using assms by (simp add: weightdelta_loop_length)
  ultimately have "weightdelta (snd (setOperationsAndComputeWeightDelta s ups INSERTS_AND_DELETES)) ! m
      = (0 # weightdelta_loop 0 ups) ! m"
    by (simp only: nth_append if_True)
  then show ?thesis
    using weightdelta_loop_nth [OF assms, of 0] by simp
qed

lemma setOps_batch_type:
  "batch_type (snd (setOperationsAndComputeWeightDelta s ups bt)) = bt"
  by (simp add: setOperationsAndComputeWeightDelta_def Let_def)

lemma delta_sum_all_insert:
  "\<forall>u\<in>set us. type u = INSERT \<Longrightarrow> delta_sum us = word_of_nat (length us)"
  by (induction us) (simp_all add: delta_sum_def OpType_value_def)

lemma delta_sum_all_delete:
  "\<forall>u\<in>set us. type u = DELETE \<Longrightarrow> delta_sum us = - word_of_nat (length us)"
  by (induction us) (simp_all add: delta_sum_def OpType_value_def)

lemma delta_sum_diff:
  assumes "i \<le> j"
  shows "delta_sum (take j us) - delta_sum (take i us) = delta_sum (take (j - i) (drop i us))"
proof -
  have "delta_sum (take j us) = delta_sum (take i us) + delta_sum (take (j - i) (drop i us))"
    using take_split [OF assms, of us] by (metis delta_sum_append)
  then show ?thesis by simp
qed

text \<open>
  C3. For a mixed batch of \<open>n\<close> operations the weight-delta array has \<open>wd[0] = 0\<close> and
  \<open>wd[i + 1] = wd[i] + 1\<close> for an INSERT, \<open>wd[i] - 1\<close> for a DELETE; for
  \<open>0 \<le> i \<le> j \<le> n\<close> the weight delta returned for \<open>[i, j)\<close> is \<open>wd[j] - wd[i]\<close>,
  the number of inserts minus the number of deletes in the range (read as a signed
  64-bit value).  For a pure-insert or pure-delete batch the closed form returns the
  same value and the array is left untouched.
\<close>

theorem weight_delta_contract:
  fixes s :: "'a btree" and ups :: "'a Operation list"
  assumes "length ups < 2 ^ 63" and "i \<le> j" and "j \<le> length ups"
  shows "weightdelta (snd (setOperationsAndComputeWeightDelta s ups INSERTS_AND_DELETES)) ! 0 = 0
       \<and> (\<forall>m<length ups.
             weightdelta (snd (setOperationsAndComputeWeightDelta s ups INSERTS_AND_DELETES)) ! (m + 1)
           = weightdelta (snd (setOperationsAndComputeWeightDelta s ups INSERTS_AND_DELETES)) ! m
             + (case type (ups ! m) of INSERT \<Rightarrow> 1 | DELETE \<Rightarrow> - 1))
       \<and> getWeightDelta (snd (setOperationsAndComputeWeightDelta s ups INSERTS_AND_DELETES)) i j
           = weightdelta (snd (setOperationsAndComputeWeightDelta s ups INSERTS_AND_DELETES)) ! j
             - weightdelta (snd (setOperationsAndComputeWeightDelta s ups INSERTS_AND_DELETES)) ! i
       \<and> sint (getWeightDelta (snd (setOperationsAndComputeWeightDelta s ups INSERTS_AND_DELETES)) i j)
           = int (count_ops INSERT ups i j) - int (count_ops DELETE ups i j)
       \<and> ((\<forall>u\<in>set ups. type u = INSERT) \<longrightarrow>
             getWeightDelta (snd (setOperationsAndComputeWeightDelta s ups INSERTS_ONLY)) i j
               = getWeightDelta (snd (setOperationsAndComputeWeightDelta s ups INSERTS_AND_DELETES)) i j
             \<and> weightdelta (snd (setOperationsAndComputeWeightDelta s ups INSERTS_ONLY))
               = weightdelta s)
       \<and> ((\<forall>u\<in>set ups. type u = DELETE) \<longrightarrow>
             getWeightDelta (snd (setOperationsAndComputeWeightDelta s ups DELETES_ONLY)) i j
               = getWeightDelta (snd (setOperationsAndComputeWeightDelta s ups INSERTS_AND_DELETES)) i j
             \<and> weightdelta (snd (setOperationsAndComputeWeightDelta s ups DELETES_ONLY))
               = weightdelta s)"
proof -
  let ?s' = "snd (setOperationsAndComputeWeightDelta s ups INSERTS_AND_DELETES)"
  have i_le: "i \<le> length ups" using assms by simp
  have nth: "\<And>m. m \<le> length ups \<Longrightarrow> weightdelta ?s' ! m = delta_sum (take m ups)"
    by (rule setOps_mixed_weightdelta_nth)
  have c0: "weightdelta ?s' ! 0 = 0"
    using nth [of 0] by (simp add: delta_sum_def)
  have c1: "\<forall>m<length ups. weightdelta ?s' ! (m + 1)
        = weightdelta ?s' ! m + (case type (ups ! m) of INSERT \<Rightarrow> 1 | DELETE \<Rightarrow> - 1)"
  proof (intro allI impI)
    fix m assume m: "m < length ups"
    have "take (m + 1) ups = take m ups @ [ups ! m]"
      using m by (simp add: take_Suc_conv_app_nth)
    then have "delta_sum (take (m + 1) ups) = delta_sum (take m ups) + OpType_value (type (ups ! m))"
      by (simp add: delta_sum_def)
    then show "weightdelta ?s' ! (m + 1)
        = weightdelta ?s' ! m + (case type (ups ! m) of INSERT \<Rightarrow> 1 | DELETE \<Rightarrow> - 1)"
      using m nth [of m] nth [of "m + 1"] by (simp add: OpType_value_def)
  qed
  have c2: "getWeightDelta ?s' i j = weightdelta ?s' ! j - weightdelta ?s' ! i"
    by (simp add: getWeightDelta_def setOps_batch_type)
  have diff: "getWeightDelta ?s' i j = delta_sum (take (j - i) (drop i ups))"
    using c2 nth [OF assms(3)] nth [OF i_le] delta_sum_diff [OF assms(2), of ups] by simp
  have c3: "sint (getWeightDelta ?s' i j)
        = int (count_ops INSERT ups i j) - int (count_ops DELETE ups i j)"
    using c2 nth [OF assms(3)] nth [OF i_le] delta_sum_range [OF assms(2), of ups]
      sint_count_diff [OF assms(1), of i j]
    by simp
  have len: "length (take (j - i) (drop i ups)) = j - i"
    using assms by simp
  have wsub: "(word_of_nat j :: 64 word) - word_of_nat i = word_of_nat (j - i)"
    using assms(2) by (simp add: of_nat_diff)
  have c4: "(\<forall>u\<in>set ups. type u = INSERT) \<longrightarrow>
             getWeightDelta (snd (setOperationsAndComputeWeightDelta s ups INSERTS_ONLY)) i j
               = getWeightDelta ?s' i j
             \<and> weightdelta (snd (setOperationsAndComputeWeightDelta s ups INSERTS_ONLY))
               = weightdelta s"
  proof
    assume h: "\<forall>u\<in>set ups. type u = INSERT"
    then have "\<forall>u\<in>set (take (j - i) (drop i ups)). type u = INSERT"
      by (meson in_set_dropD in_set_takeD)
    then have "delta_sum (take (j - i) (drop i ups)) = word_of_nat (j - i)"
      using delta_sum_all_insert len by metis
    moreover have "getWeightDelta (snd (setOperationsAndComputeWeightDelta s ups INSERTS_ONLY)) i j
        = word_of_nat (j - i)"
      by (simp add: getWeightDelta_def setOperationsAndComputeWeightDelta_def Let_def
          OperationBatchType_value_def wsub)
    moreover have "weightdelta (snd (setOperationsAndComputeWeightDelta s ups INSERTS_ONLY))
        = weightdelta s"
      by (simp add: setOperationsAndComputeWeightDelta_def Let_def)
    ultimately show "getWeightDelta (snd (setOperationsAndComputeWeightDelta s ups INSERTS_ONLY)) i j
               = getWeightDelta ?s' i j
             \<and> weightdelta (snd (setOperationsAndComputeWeightDelta s ups INSERTS_ONLY))
               = weightdelta s"
      using diff by simp
  qed
  have c5: "(\<forall>u\<in>set ups. type u = DELETE) \<longrightarrow>
             getWeightDelta (snd (setOperationsAndComputeWeightDelta s ups DELETES_ONLY)) i j
               = getWeightDelta ?s' i j
             \<and> weightdelta (snd (setOperationsAndComputeWeightDelta s ups DELETES_ONLY))
               = weightdelta s"
  proof
    assume h: "\<forall>u\<in>set ups. type u = DELETE"
    then have "\<forall>u\<in>set (take (j - i) (drop i ups)). type u = DELETE"
      by (meson in_set_dropD in_set_takeD)
    then have "delta_sum (take (j - i) (drop i ups)) = - word_of_nat (j - i)"
      using delta_sum_all_delete len by metis
    moreover have "getWeightDelta (snd (setOperationsAndComputeWeightDelta s ups DELETES_ONLY)) i j
        = - word_of_nat (j - i)"
      by (simp add: getWeightDelta_def setOperationsAndComputeWeightDelta_def Let_def
          OperationBatchType_value_def wsub)
    moreover have "weightdelta (snd (setOperationsAndComputeWeightDelta s ups DELETES_ONLY))
        = weightdelta s"
      by (simp add: setOperationsAndComputeWeightDelta_def Let_def)
    ultimately show "getWeightDelta (snd (setOperationsAndComputeWeightDelta s ups DELETES_ONLY)) i j
               = getWeightDelta ?s' i j
             \<and> weightdelta (snd (setOperationsAndComputeWeightDelta s ups DELETES_ONLY))
               = weightdelta s"
      using diff by simp
  qed
  show ?thesis
    using c0 c1 c2 c3 c4 c5 by blast
qed


theorem weight_delta_contract_witness:
  "sint (getWeightDelta
           (snd (setOperationsAndComputeWeightDelta (new_btree :: 32 word btree)
                   [Operation INSERT (NodeLabel 1 (Label 1 5)),
                    Operation DELETE (NodeLabel 2 (Label 2 4)),
                    Operation INSERT (NodeLabel 3 (Label 3 3))] INSERTS_AND_DELETES)) 0 3) = 1"
proof -
  let ?ups = "[Operation INSERT (NodeLabel 1 (Label 1 5)),
               Operation DELETE (NodeLabel 2 (Label 2 4)),
               Operation INSERT (NodeLabel 3 (Label 3 3))] :: 32 word Operation list"
  have h1: "length ?ups < 2 ^ 63" by simp
  have h2: "(0::nat) \<le> 3" by simp
  have h3: "3 \<le> length ?ups" by simp
  have "sint (getWeightDelta
           (snd (setOperationsAndComputeWeightDelta (new_btree :: 32 word btree) ?ups
                   INSERTS_AND_DELETES)) 0 3)
      = int (count_ops INSERT ?ups 0 3) - int (count_ops DELETE ?ups 0 3)"
    using weight_delta_contract [OF h1 h2 h3, of new_btree] by blast
  then show ?thesis
    by (simp add: count_ops_def)
qed

section \<open>The binary search on the batch\<close>

text \<open>
  C8. The claim asks for a midpoint that cannot overflow.  The source forms
  \<open>(lo + hi) >> 1\<close> in \<open>int\<close>: for the index range \<open>[2^30, 2^30 + 2)\<close> of a batch
  the sum exceeds the largest \<open>int\<close>.
\<close>

theorem find_lower_midpoint_overflows:
  "find_lower ups 1073741824 1073741826 key = Inl SignedOverflow"
  by (subst find_lower.simps) (simp add: INT_MAX_def INT_MIN_def)

section \<open>The target level\<close>

lemma ceil_log_least:
  fixes b m d :: nat
  assumes b: "1 < b" and d: "0 < d" and m: "d < m"
  shows "nat \<lceil>ln (real m / real d) / ln (real b)\<rceil> = (LEAST L. m \<le> d * b ^ L)"
proof -
  define x where "x = real m / real d"
  define y where "y = log (real b) x"
  have x1: "1 < x" using d m by (simp add: x_def)
  have x0: "0 < x" using x1 by linarith
  have rb: "1 < real b" using b by simp
  have y_eq: "ln (real m / real d) / ln (real b) = y"
    by (simp add: y_def x_def log_def)
  have y0: "0 < y" unfolding y_def using rb x1 by simp
  have c0: "0 \<le> \<lceil>y\<rceil>" using y0 by simp
  have iff: "m \<le> d * b ^ L \<longleftrightarrow> y \<le> real L" for L
  proof -
    have "m \<le> d * b ^ L \<longleftrightarrow> real m \<le> real d * real b ^ L"
      by (metis of_nat_le_iff of_nat_mult of_nat_power)
    also have "\<dots> \<longleftrightarrow> x \<le> real b ^ L"
      using d by (simp add: x_def pos_divide_le_eq mult.commute)
    also have "\<dots> \<longleftrightarrow> x \<le> real b powr real L"
      using rb by (simp add: powr_realpow)
    also have "\<dots> \<longleftrightarrow> y \<le> real L"
      unfolding y_def using rb x0 by (simp add: log_le_iff)
    finally show ?thesis .
  qed
  have "(LEAST L. m \<le> d * b ^ L) = nat \<lceil>y\<rceil>"
  proof (rule Least_equality)
    have "y \<le> real_of_int \<lceil>y\<rceil>" by (rule le_of_int_ceiling)
    also have "\<dots> = real (nat \<lceil>y\<rceil>)" using c0 by (metis of_nat_nat)
    finally have "y \<le> real (nat \<lceil>y\<rceil>)" .
    then show "m \<le> d * b ^ nat \<lceil>y\<rceil>" using iff by blast
  next
    fix L assume "m \<le> d * b ^ L"
    then have "y \<le> real L" using iff by blast
    then have "y \<le> of_int (int L)" by (metis of_int_of_nat_eq)
    then have "\<lceil>y\<rceil> \<le> int L" by (rule ceiling_le)
    then show "nat \<lceil>y\<rceil> \<le> L" by (simp only: nat_le_iff)
  qed
  then show ?thesis by (simp only: y_eq)
qed

lemma ceil_log_eqI:
  fixes b m d :: nat
  assumes b: "1 < b" and d: "0 < d" and m: "d < m"
    and lo: "d * b ^ L < m" and hi: "m \<le> d * b ^ Suc L"
  shows "nat \<lceil>ln (real m / real d) / ln (real b)\<rceil> = Suc L"
proof -
  have l: "(LEAST j. m \<le> d * b ^ j) = Suc L"
  proof (rule Least_equality)
    show "m \<le> d * b ^ Suc L" by (rule hi)
  next
    fix j assume j: "m \<le> d * b ^ j"
    show "Suc L \<le> j"
    proof (rule ccontr)
      assume "\<not> Suc L \<le> j"
      then have "j \<le> L" by simp
      then have "b ^ j \<le> b ^ L" using b by (simp add: power_increasing)
      then have "d * b ^ j \<le> d * b ^ L" by simp
      with j lo show False by linarith
    qed
  qed
  show ?thesis by (simp only: ceil_log_least [OF b d m] l)
qed

lemma designated_lt_imp:
  assumes "LEAF_PARAMETER_K t < 65536" and "designated_leafsize t < n"
  shows "5 * leafparameter_k t < 8 * n"
proof -
  define k where "k = leafparameter_k t"
  define x where "x = k + k div 4"
  have a: "k \<le> 4 * (k div 4) + 3" by linarith
  have b: "x \<le> 2 * (x div 2) + 1" by linarith
  have c: "x div 2 < n"
    using assms(2) by (simp add: widths_untruncated(3) [OF assms(1)] x_def k_def)
  show ?thesis
    unfolding k_def [symmetric] using a b c x_def by linarith
qed

lemma num_optimal_levels_eqI:
  assumes "LEAF_PARAMETER_K t < 65536" and "BRANCHING_PARAMETER_B t < 4294967296"
    and "designated_leafsize t < n"
    and "5 * leafparameter_k t * branchingparameter_b t ^ L < 8 * n"
    and "8 * n \<le> 5 * leafparameter_k t * branchingparameter_b t ^ Suc L"
  shows "num_optimal_levels t n = Suc L"
proof -
  have m: "5 * leafparameter_k t < 8 * n" using designated_lt_imp [OF assms(1) assms(3)] .
  have d: "0 < 5 * leafparameter_k t" using widths_untruncated(4) [OF assms(1)] by simp
  have b: "1 < branchingparameter_b t" using branchingparameter_b_ge [OF assms(2)] by simp
  have e: "real (8 * n) / real (5 * leafparameter_k t) = (8 * real n) / (5 * real (leafparameter_k t))"
    by simp
  have "num_optimal_levels t n
      = nat \<lceil>ln ((8 * real n) / (5 * real (leafparameter_k t)))
                / ln (real (branchingparameter_b t))\<rceil>"
    using assms(3) by (simp add: num_optimal_levels_def)
  also have "\<dots> = Suc L"
    using ceil_log_eqI [OF b d m assms(4) assms(5)] unfolding e .
  finally show ?thesis .
qed


lemma num_optimal_levels_8_8_low:
  assumes "5 < n" and "n \<le> 40"
  shows "num_optimal_levels \<lparr>LEAF_PARAMETER_K = 8, BRANCHING_PARAMETER_B = 8\<rparr> n = 1"
proof -
  have "num_optimal_levels \<lparr>LEAF_PARAMETER_K = 8, BRANCHING_PARAMETER_B = 8\<rparr> n = Suc 0"
    by (rule num_optimal_levels_eqI) (use assms in \<open>simp_all add: traits_8_8\<close>)
  then show ?thesis by simp
qed

text \<open>
  C4. The claim combines the two trees of the repository.  The sequential tree compares
  with the designated leaf size and takes \<open>\<lceil>log\<^sub>b (8 n / (5 k))\<rceil>\<close>, but never reduces the
  level; the parallel tree reduces the level for a single subtree, but compares with
  the leaf capacity and takes \<open>\<lceil>log\<^sub>b (2 n / k)\<rceil>\<close>.  With \<open>k = b = 8\<close>: for six keys the
  sequential tree answers 1 where the claim gives 0, and for eight keys the parallel
  tree answers 0 where the claim gives 1.
\<close>

theorem optimal_levels_counterexample:
  "num_optimal_levels \<lparr>LEAF_PARAMETER_K = 8, BRANCHING_PARAMETER_B = 8\<rparr> 6 = 1
   \<and> optimal_levels_spec \<lparr>LEAF_PARAMETER_K = 8, BRANCHING_PARAMETER_B = 8\<rparr> 6 = 0
   \<and> par_num_optimal_levels \<lparr>LEAF_PARAMETER_K = 8, BRANCHING_PARAMETER_B = 8\<rparr> 8 = 0
   \<and> optimal_levels_spec \<lparr>LEAF_PARAMETER_K = 8, BRANCHING_PARAMETER_B = 8\<rparr> 8 = 1"
proof -
  let ?t = "\<lparr>LEAF_PARAMETER_K = 8, BRANCHING_PARAMETER_B = 8\<rparr>"
  have l6: "num_optimal_levels ?t 6 = 1" by (rule num_optimal_levels_8_8_low) simp_all
  have l8: "num_optimal_levels ?t 8 = 1" by (rule num_optimal_levels_8_8_low) simp_all
  have c6: "nat \<lceil>log (real (branchingparameter_b ?t)) ((8 * real 6) / (5 * real (leafparameter_k ?t)))\<rceil> = 1"
    using l6 by (simp add: num_optimal_levels_def log_def traits_8_8)
  have c8: "nat \<lceil>log (real (branchingparameter_b ?t)) ((8 * real 8) / (5 * real (leafparameter_k ?t)))\<rceil> = 1"
    using l8 by (simp add: num_optimal_levels_def log_def traits_8_8)
  have s6: "optimal_levels_spec ?t 6 = 0"
    unfolding optimal_levels_spec_def c6 Let_def
    by (simp add: designated_subtreesize_8_8_1 num_subtrees_def traits_8_8 Let_def)
  have s8: "optimal_levels_spec ?t 8 = 1"
    unfolding optimal_levels_spec_def c8 Let_def
    by (simp add: designated_subtreesize_8_8_1 num_subtrees_def traits_8_8 Let_def)
  have p8: "par_num_optimal_levels ?t 8 = 0"
    by (simp add: par_num_optimal_levels_def traits_8_8)
  show ?thesis using l6 s6 p8 s8 by simp
qed

section \<open>Releasing the nodes\<close>

lemma decrement_pos: "0 < n \<Longrightarrow> decrement n = n - 1"
  by (simp add: decrement_def)

lemma clear_recursive_stats:
  "count_leaves n \<le> leaves (stats s) \<Longrightarrow> count_inner n \<le> innernodes (stats s) \<Longrightarrow>
     clear_recursive s n
       = s\<lparr>stats := (stats s)\<lparr>leaves := leaves (stats s) - count_leaves n,
                               innernodes := innernodes (stats s) - count_inner n\<rparr>\<rparr>"
  and clear_slots_stats:
  "count_leaves_slots sls \<le> leaves (stats s) \<Longrightarrow> count_inner_slots sls \<le> innernodes (stats s) \<Longrightarrow>
     clear_slots s sls
       = s\<lparr>stats := (stats s)\<lparr>leaves := leaves (stats s) - count_leaves_slots sls,
                               innernodes := innernodes (stats s) - count_inner_slots sls\<rparr>\<rparr>"
proof (induction s n and s sls rule: clear_recursive_clear_slots.induct)
  case (1 s ks)
  then show ?case by (simp add: free_node_def decrement_pos)
next
  case (2 s l sl)
  then show ?case by (simp add: free_node_def decrement_pos)
next
  case (3 s)
  then show ?case by simp
next
  case (4 s k w c m sls)
  then show ?case by simp
qed

lemma clear_consistent:
  assumes "root s = Some r"
    and "leaves (stats s) = count_leaves r" and "innernodes (stats s) = count_inner r"
  shows "clear s = Inr (s\<lparr>stats := (stats s)\<lparr>leaves := 0, innernodes := 0\<rparr>, root := None\<rparr>)"
  using assms clear_recursive_stats [of r s]
  by (simp add: clear_def Let_def)

lemma clear_no_root:
  assumes "root s = None" and "leaves (stats s) = 0" and "innernodes (stats s) = 0"
  shows "clear s = Inr s"
  using assms by (simp add: clear_def Let_def)

lemma apply_updates_begin_fields:
  "root (snd (apply_updates_begin s ups bt)) = root s"
  "leaves (stats (snd (apply_updates_begin s ups bt))) = leaves (stats s)"
  "innernodes (stats (snd (apply_updates_begin s ups bt))) = innernodes (stats s)"
  "itemcount (stats (snd (apply_updates_begin s ups bt))) = fst (apply_updates_begin s ups bt)"
  by (simp_all add: apply_updates_begin_def setOperationsAndComputeWeightDelta_def Let_def
      split: prod.splits)

text \<open>
  C9. On a tree with nodes whose statistics count them, \<open>clear\<close> releases every node
  and drops the root, but leaves the item count as it was: \<open>size_btree\<close> still returns it and
  \<open>empty_btree\<close> is false.  \<open>apply_updates\<close> with a batch that empties the tree stores the new
  item count, zero, before it calls \<open>clear\<close>.
\<close>

theorem clear_keeps_itemcount:
  fixes s :: "'w::len word btree"
  assumes "root s = Some r" and "0 < itemcount (stats s)"
    and "leaves (stats s) = count_leaves r" and "innernodes (stats s) = count_inner r"
  shows "(\<exists>s'. clear s = Inr s' \<and> root s' = None \<and> leaves (stats s') = 0
               \<and> innernodes (stats s') = 0 \<and> size_btree s' = size_btree s \<and> \<not> empty_btree s')
       \<and> (fst (apply_updates_begin s ups bt) = 0 \<longrightarrow>
            (\<exists>s'. apply_updates t s ups bt = Inr s' \<and> root s' = None \<and> size_btree s' = 0 \<and> empty_btree s'))"
proof -
  have a: "clear s = Inr (s\<lparr>stats := (stats s)\<lparr>leaves := 0, innernodes := 0\<rparr>, root := None\<rparr>)"
    by (rule clear_consistent [OF assms(1) assms(3) assms(4)])
  have part1: "\<exists>s'. clear s = Inr s' \<and> root s' = None \<and> leaves (stats s') = 0
               \<and> innernodes (stats s') = 0 \<and> size_btree s' = size_btree s \<and> \<not> empty_btree s'"
    using assms(2) by (simp add: a size_btree_def empty_btree_def)
  have part2: "fst (apply_updates_begin s ups bt) = 0 \<longrightarrow>
            (\<exists>s'. apply_updates t s ups bt = Inr s' \<and> root s' = None \<and> size_btree s' = 0 \<and> empty_btree s')"
  proof
    assume z: "fst (apply_updates_begin s ups bt) = 0"
    obtain s1 where b: "apply_updates_begin s ups bt = (0, s1)"
      using z by (cases "apply_updates_begin s ups bt") simp
    have s1: "s1 = snd (apply_updates_begin s ups bt)" by (simp add: b)
    have r1: "root s1 = Some r" by (simp add: s1 apply_updates_begin_fields assms(1))
    have l1: "leaves (stats s1) = count_leaves r"
      by (simp add: s1 apply_updates_begin_fields assms(3))
    have i1: "innernodes (stats s1) = count_inner r"
      by (simp add: s1 apply_updates_begin_fields assms(4))
    have c1: "itemcount (stats s1) = 0"
      using z by (simp add: s1 apply_updates_begin_fields)
    have "apply_updates t s ups bt = clear s1"
      by (simp add: apply_updates_def b)
    also have "\<dots> = Inr (s1\<lparr>stats := (stats s1)\<lparr>leaves := 0, innernodes := 0\<rparr>, root := None\<rparr>)"
      by (rule clear_consistent [OF r1 l1 i1])
    finally show "\<exists>s'. apply_updates t s ups bt = Inr s' \<and> root s' = None \<and> size_btree s' = 0 \<and> empty_btree s'"
      using c1 by (simp add: size_btree_def empty_btree_def)
  qed
  show ?thesis using part1 part2 by (rule conjI)
qed


theorem clear_keeps_itemcount_witness:
  "(\<exists>s'. clear example_tree = Inr s' \<and> root s' = None \<and> size_btree s' = 4 \<and> \<not> empty_btree s')
   \<and> (\<exists>s'. apply_updates \<lparr>LEAF_PARAMETER_K = 8, BRANCHING_PARAMETER_B = 8\<rparr> example_tree
              [Operation DELETE (NodeLabel 1 (Label 1 9)), Operation DELETE (NodeLabel 2 (Label 2 7)),
               Operation DELETE (NodeLabel 3 (Label 3 8)), Operation DELETE (NodeLabel 4 (Label 4 3))]
              DELETES_ONLY = Inr s' \<and> root s' = None \<and> size_btree s' = 0 \<and> empty_btree s')"
proof -
  let ?r = "inner_node 1
                 [inner_node_data (NodeLabel 2 (Label 2 7)) 2
                    (leaf_node [NodeLabel 1 (Label 1 9), NodeLabel 2 (Label 2 7)]) (Label 2 7),
                  inner_node_data (NodeLabel 4 (Label 4 3)) 2
                    (leaf_node [NodeLabel 3 (Label 3 8), NodeLabel 4 (Label 4 3)]) (Label 4 3 :: 32 word label_type)]"
  let ?ups = "[Operation DELETE (NodeLabel 1 (Label 1 9)), Operation DELETE (NodeLabel 2 (Label 2 7)),
               Operation DELETE (NodeLabel 3 (Label 3 8)), Operation DELETE (NodeLabel 4 (Label 4 3 :: 32 word label_type))]"
  have h1: "root example_tree = Some ?r" by (simp add: example_tree_def new_btree_def)
  have h2: "0 < itemcount (stats example_tree)" by (simp add: example_tree_def new_btree_def)
  have h3: "leaves (stats example_tree) = count_leaves ?r"
    by (simp add: example_tree_def new_btree_def)
  have h4: "innernodes (stats example_tree) = count_inner ?r"
    by (simp add: example_tree_def new_btree_def)
  have z: "fst (apply_updates_begin example_tree ?ups DELETES_ONLY) = 0"
    by (simp add: apply_updates_begin_def setOperationsAndComputeWeightDelta_def Let_def
        example_tree_def new_btree_def size_btree_def OperationBatchType_value_def)
  have s4: "size_btree example_tree = 4" by (simp add: example_tree_def new_btree_def size_btree_def)
  have "(\<exists>s'. clear example_tree = Inr s' \<and> root s' = None \<and> leaves (stats s') = 0
               \<and> innernodes (stats s') = 0 \<and> size_btree s' = size_btree example_tree \<and> \<not> empty_btree s')
       \<and> (fst (apply_updates_begin example_tree ?ups DELETES_ONLY) = 0 \<longrightarrow>
            (\<exists>s'. apply_updates \<lparr>LEAF_PARAMETER_K = 8, BRANCHING_PARAMETER_B = 8\<rparr> example_tree ?ups DELETES_ONLY = Inr s' \<and> root s' = None \<and> size_btree s' = 0 \<and> empty_btree s'))"
    by (rule clear_keeps_itemcount [OF h1 h2 h3 h4])
  then show ?thesis
    unfolding s4 using z by blast
qed

section \<open>The index into the new leaves\<close>

lemma write_key_index:
  assumes "leaf_number < length (new_leaves s)"
  shows "write_key t s leaf_number out k \<noteq> Inl LeafIndexOutOfBounds"
    and "write_key t s leaf_number out k = Inr s' \<Longrightarrow> length (new_leaves s') = length (new_leaves s)"
  using assms by (auto simp: write_key_def split: node.splits if_splits)

lemma set_slotuse_index:
  assumes "leaf_number < length (new_leaves s)"
  shows "set_slotuse s leaf_number n \<noteq> Inl LeafIndexOutOfBounds"
    and "set_slotuse s leaf_number n = Inr s' \<Longrightarrow> length (new_leaves s') = length (new_leaves s)"
  using assms by (auto simp: set_slotuse_def split: node.splits if_splits)

lemma put_and_advance_index:
  assumes "leaf_index_ok w"
  shows "put_and_advance t w k m \<noteq> Inl LeafIndexOutOfBounds"
    and "put_and_advance t w k m = Inr w' \<Longrightarrow> leaf_index_ok w'"
proof -
  obtain s leaf_number out where w: "w = (s, leaf_number, out)" by (cases w) auto
  have ok: "leaf_number < length (new_leaves s)" using assms by (simp add: w leaf_index_ok_def)
  show "put_and_advance t w k m \<noteq> Inl LeafIndexOutOfBounds"
  proof (cases "write_key t s leaf_number out k")
    case (Inl e)
    then show ?thesis using write_key_index(1) [OF ok, of t out k] by (simp add: put_and_advance_def w)
  next
    case (Inr s1)
    have len: "length (new_leaves s1) = length (new_leaves s)" by (rule write_key_index(2) [OF ok Inr])
    then have ok1: "leaf_number < length (new_leaves s1)" using ok by simp
    show ?thesis
      using set_slotuse_index(1) [OF ok1, of "designated_leafsize t"]
      by (auto simp: put_and_advance_def w Inr split: sum.splits)
  qed
  show "leaf_index_ok w'" if r: "put_and_advance t w k m = Inr w'"
  proof (cases "write_key t s leaf_number out k")
    case (Inl e)
    then show ?thesis using r by (simp add: put_and_advance_def w)
  next
    case (Inr s1)
    have len: "length (new_leaves s1) = length (new_leaves s)" by (rule write_key_index(2) [OF ok Inr])
    then have ok1: "leaf_number < length (new_leaves s1)" using ok by simp
    show ?thesis
      using r set_slotuse_index(2) [OF ok1, of "designated_leafsize t"] ok1
      by (auto simp: put_and_advance_def w Inr leaf_index_ok_def hasNextLeaf_def
          split: sum.splits if_splits)
  qed
qed

lemma rewrite_while_less_index:
  assumes "leaf_index_ok w"
  shows "rewrite_while_less t ks key w \<noteq> Inl LeafIndexOutOfBounds
       \<and> (\<forall>ks' w'. rewrite_while_less t ks key w = Inr (ks', w') \<longrightarrow> leaf_index_ok w')"
  using assms
proof (induction ks arbitrary: w)
  case Nil
  then show ?case by auto
next
  case (Cons k ks)
  show ?case
  proof (cases "key_less k key")
    case False
    then show ?thesis using Cons.prems by auto
  next
    case True
    show ?thesis
    proof (cases "put_and_advance t w k True")
      case (Inl e)
      then show ?thesis using True put_and_advance_index(1) [OF Cons.prems, of t k True] by simp
    next
      case (Inr w1)
      have "leaf_index_ok w1" by (rule put_and_advance_index(2) [OF Cons.prems Inr])
      from Cons.IH [OF this] show ?thesis using True Inr by simp
    qed
  qed
qed

lemma rewrite_while_less_unchecked_index:
  assumes "leaf_index_ok w"
  shows "rewrite_while_less_unchecked t ks key w \<noteq> Inl LeafIndexOutOfBounds
       \<and> (\<forall>ks' w'. rewrite_while_less_unchecked t ks key w = Inr (ks', w') \<longrightarrow> leaf_index_ok w')"
  using assms
proof (induction ks arbitrary: w)
  case Nil
  then show ?case by auto
next
  case (Cons k ks)
  show ?case
  proof (cases "key_less k key")
    case False
    then show ?thesis using Cons.prems by auto
  next
    case True
    show ?thesis
    proof (cases "put_and_advance t w k True")
      case (Inl e)
      then show ?thesis using True put_and_advance_index(1) [OF Cons.prems, of t k True] by simp
    next
      case (Inr w1)
      have "leaf_index_ok w1" by (rule put_and_advance_index(2) [OF Cons.prems Inr])
      from Cons.IH [OF this] show ?thesis using True Inr by simp
    qed
  qed
qed

lemma rewrite_loop_index:
  assumes "leaf_index_ok w"
  shows "rewrite_loop t us ks w \<noteq> Inl LeafIndexOutOfBounds
       \<and> (\<forall>ks' w'. rewrite_loop t us ks w = Inr (ks', w') \<longrightarrow> leaf_index_ok w')"
  using assms
proof (induction us arbitrary: ks w)
  case Nil
  then show ?case by auto
next
  case (Cons u us)
  show ?case
  proof (cases "type u")
    case DELETE
    show ?thesis
    proof (cases "rewrite_while_less_unchecked t ks (data u) w")
      case (Inl e)
      then show ?thesis
        using DELETE rewrite_while_less_unchecked_index [OF Cons.prems, of t ks "data u"] by simp
    next
      case (Inr p)
      obtain ks1 w1 where p: "p = (ks1, w1)" by (cases p) auto
      have "leaf_index_ok w1"
        using rewrite_while_less_unchecked_index [OF Cons.prems, of t ks "data u"] Inr p by blast
      from Cons.IH [OF this] show ?thesis using DELETE Inr p by simp
    qed
  next
    case INSERT
    show ?thesis
    proof (cases "rewrite_while_less t ks (data u) w")
      case (Inl e)
      then show ?thesis
        using INSERT rewrite_while_less_index [OF Cons.prems, of t ks "data u"] by simp
    next
      case (Inr p)
      obtain ks1 w1 where p: "p = (ks1, w1)" by (cases p) auto
      have ok1: "leaf_index_ok w1"
        using rewrite_while_less_index [OF Cons.prems, of t ks "data u"] Inr p by blast
      show ?thesis
      proof (cases "put_and_advance t w1 (data u) True")
        case (Inl e)
        then show ?thesis
          using INSERT Inr p put_and_advance_index(1) [OF ok1, of t "data u" True] by simp
      next
        case (Inr w2)
        have "leaf_index_ok w2" by (rule put_and_advance_index(2) [OF ok1 Inr])
        from Cons.IH [OF this] show ?thesis using INSERT \<open>rewrite_while_less t ks (data u) w = Inr p\<close> p Inr by simp
      qed
    qed
  qed
qed

lemma rewrite_rest_index:
  assumes "leaf_index_ok w"
  shows "rewrite_rest t ks w \<noteq> Inl LeafIndexOutOfBounds
       \<and> (\<forall>w'. rewrite_rest t ks w = Inr w' \<longrightarrow> leaf_index_ok w')"
  using assms
proof (induction ks arbitrary: w)
  case Nil
  then show ?case by auto
next
  case (Cons k ks)
  show ?case
  proof (cases "put_and_advance t w k (ks \<noteq> [])")
    case (Inl e)
    then show ?thesis using put_and_advance_index(1) [OF Cons.prems, of t k "ks \<noteq> []"] by simp
  next
    case (Inr w1)
    have "leaf_index_ok w1" by (rule put_and_advance_index(2) [OF Cons.prems Inr])
    from Cons.IH [OF this] show ?thesis using Inr by simp
  qed
qed

lemma write_updated_leaf_index:
  assumes "new_leaves s \<noteq> []"
  shows "write_updated_leaf_to_new_tree t s n rank upd \<noteq> Inl LeafIndexOutOfBounds"
proof (cases n)
  case (inner_node l sls)
  then show ?thesis using assms by (simp add: write_updated_leaf_to_new_tree_def Let_def)
next
  case (leaf_node ks)
  define leaf_number where "leaf_number =
     (if rank div designated_leafsize t \<ge> length (new_leaves s) then length (new_leaves s) - 1
      else rank div designated_leafsize t)"
  define offset where "offset =
     (if rank div designated_leafsize t \<ge> length (new_leaves s)
      then rank - leaf_number * designated_leafsize t else rank mod designated_leafsize t)"
  have ok0: "leaf_index_ok (s, leaf_number, offset)"
    using assms by (auto simp: leaf_index_ok_def leaf_number_def)
  have unfold: "write_updated_leaf_to_new_tree t s n rank upd =
      (case updates_range s (upd_begin upd) (upd_end upd) of Inl e \<Rightarrow> Inl e
       | Inr ups \<Rightarrow>
           (case rewrite_loop t ups ks (s, leaf_number, offset) of Inl e \<Rightarrow> Inl e
            | Inr (rest, w) \<Rightarrow>
                (case rewrite_rest t rest w of Inl e \<Rightarrow> Inl e
                 | Inr (s', leaf_number', out') \<Rightarrow> set_slotuse s' leaf_number' out')))"
    unfolding write_updated_leaf_to_new_tree_def Let_def leaf_node leaf_number_def offset_def
    using assms by simp
  show ?thesis
  proof (cases "updates_range s (upd_begin upd) (upd_end upd)")
    case (Inl e)
    then show ?thesis
      by (auto simp: unfold updates_range_def split: if_splits)
  next
    case (Inr ups)
    note ups = Inr
    show ?thesis
    proof (cases "rewrite_loop t ups ks (s, leaf_number, offset)")
      case (Inl e)
      then show ?thesis using rewrite_loop_index [OF ok0, of t ups ks] by (simp add: unfold ups)
    next
      case (Inr p)
      obtain rest w where p: "p = (rest, w)" by (cases p) auto
      have ok1: "leaf_index_ok w" using rewrite_loop_index [OF ok0, of t ups ks] Inr p by blast
      show ?thesis
      proof (cases "rewrite_rest t rest w")
        case (Inl e)
        then show ?thesis
          using rewrite_rest_index [OF ok1, of t rest] by (simp add: unfold ups \<open>rewrite_loop t ups ks (s, leaf_number, offset) = Inr p\<close> p)
      next
        case (Inr w2)
        obtain s2 ln2 out2 where w2: "w2 = (s2, ln2, out2)" by (cases w2) auto
        have "leaf_index_ok w2" using rewrite_rest_index [OF ok1, of t rest] Inr by blast
        then have "ln2 < length (new_leaves s2)" by (simp add: w2 leaf_index_ok_def)
        then show ?thesis
          using set_slotuse_index(1) [of ln2 s2 out2]
          by (simp add: unfold ups \<open>rewrite_loop t ups ks (s, leaf_number, offset) = Inr p\<close> p Inr w2)
      qed
    qed
  qed
qed

lemma num_subtrees_remainder_rule:
  assumes "0 < n" and "n < s - n"
  shows "par_num_subtrees n s = 0" and "num_subtrees n s = 1"
proof -
  have lt: "n < s" using assms by linarith
  then have d: "n div s = 0" and m: "n mod s = n" by simp_all
  show "par_num_subtrees n s = 0"
    using assms by (simp add: par_num_subtrees_def Let_def d m)
  show "num_subtrees n s = 1"
    using assms by (simp add: num_subtrees_def Let_def d m)
qed

lemma allocate_new_leaves_nonempty:
  "0 < n \<Longrightarrow> new_leaves (allocate_new_leaves t s n) \<noteq> []"
  using num_subtrees_ge_1 [of n "designated_leafsize t"]
  by (simp add: allocate_new_leaves_def Let_def)

text \<open>
  C10. For \<open>n > 0\<close> and a subtree size \<open>s > 0\<close> the sequential \<open>num_subtrees n s\<close> is at
  least 1, also when the remainder rule by itself yields 0 (\<open>n < s - n\<close>).  Hence
  \<open>allocate_new_leaves\<close> for a non-empty range creates at least one leaf, and
  \<open>write_updated_leaf_to_new_tree\<close> never indexes the vector of new leaves outside its
  bounds.
\<close>

theorem num_subtrees_at_least_one:
  assumes "0 < n" and "0 < s"
  shows "1 \<le> num_subtrees n s
       \<and> (n < s - n \<longrightarrow> par_num_subtrees n s = 0 \<and> num_subtrees n s = 1)
       \<and> length (new_leaves (allocate_new_leaves t st n)) = num_subtrees n (designated_leafsize t)
       \<and> new_leaves (allocate_new_leaves t st n) \<noteq> []
       \<and> write_updated_leaf_to_new_tree t (allocate_new_leaves t st n) nd rank upd
           \<noteq> Inl LeafIndexOutOfBounds"
  using assms(1) num_subtrees_ge_1 [of n s] num_subtrees_remainder_rule [of n s]
    allocate_new_leaves_nonempty [of n t st]
    write_updated_leaf_index [of "allocate_new_leaves t st n" t nd rank upd]
  by (simp add: allocate_new_leaves_def Let_def)

theorem num_subtrees_at_least_one_witness:
  "num_subtrees 1 5 = 1 \<and> par_num_subtrees 1 5 = 0
   \<and> new_leaves (allocate_new_leaves \<lparr>LEAF_PARAMETER_K = 8, BRANCHING_PARAMETER_B = 8\<rparr>
         (new_btree :: 32 word btree) 1) = [leaf_node []]"
proof -
  have h1: "(0::nat) < 1" and h2: "(0::nat) < 5" by simp_all
  have "(1::nat) < 5 - 1" by simp
  then have "num_subtrees 1 5 = 1 \<and> par_num_subtrees 1 5 = 0"
    using num_subtrees_at_least_one [OF h1 h2] by blast
  moreover have "new_leaves (allocate_new_leaves \<lparr>LEAF_PARAMETER_K = 8, BRANCHING_PARAMETER_B = 8\<rparr>
         (new_btree :: 32 word btree) 1) = [leaf_node []]"
    by (simp add: allocate_new_leaves_def Let_def num_subtrees_def traits_8_8)
  ultimately show ?thesis by simp
qed

section \<open>The order of the keys\<close>

lemma key_less_irrefl: "\<not> key_less a a"
  by (simp add: key_less_def BTreeSetOrderer_def)

lemma key_less_trans: "key_less a b \<Longrightarrow> key_less b c \<Longrightarrow> key_less a c"
  by (auto simp: key_less_def BTreeSetOrderer_def split: if_splits)

lemma key_less_total: "key_less a b \<or> a = b \<or> key_less b a"
proof -
  obtain n1 f1 s1 where a: "a = NodeLabel n1 (Label f1 s1)"
    by (metis data_type.exhaust label_type.exhaust)
  obtain n2 f2 s2 where b: "b = NodeLabel n2 (Label f2 s2)"
    by (metis data_type.exhaust label_type.exhaust)
  show ?thesis
    by (auto simp: a b key_less_def BTreeSetOrderer_def)
qed

lemma key_less_asym: "key_less a b \<Longrightarrow> \<not> key_less b a"
  using key_less_trans [of a b a] key_less_irrefl [of a] by blast

lemma key_equal_iff: "key_equal a b \<longleftrightarrow> a = b"
  using key_less_total [of a b] key_less_irrefl by (auto simp: key_equal_def)

lemma update_router_eq [simp]: "update_router r n = n"
  by (simp add: update_router_def key_equal_iff)

lemma sorted_wrt_key_less_distinct: "sorted_wrt key_less xs \<Longrightarrow> distinct xs"
  by (induction xs) (auto simp: key_less_irrefl)

section \<open>Merging a batch into a leaf\<close>

lemma copy_while_less_eq:
  assumes "length out + length (takeWhile (\<lambda>k. key_less k key) ks) \<le> leafslotmax t"
  shows "copy_while_less t ks key out
       = Inr (dropWhile (\<lambda>k. key_less k key) ks, out @ takeWhile (\<lambda>k. key_less k key) ks)"
  using assms
proof (induction ks arbitrary: out)
  case Nil
  then show ?case by simp
next
  case (Cons k ks)
  show ?case
  proof (cases "key_less k key")
    case False
    then show ?thesis by simp
  next
    case True
    have p: "put_key t out k = Inr (out @ [k])"
      using Cons.prems True by (simp add: put_key_def)
    have "length (out @ [k]) + length (takeWhile (\<lambda>k. key_less k key) ks) \<le> leafslotmax t"
      using Cons.prems True by simp
    from Cons.IH [OF this] show ?thesis using True p by simp
  qed
qed

lemma copy_while_less_unchecked_eq:
  assumes "length out + length (takeWhile (\<lambda>k. key_less k key) ks) \<le> leafslotmax t"
    and "dropWhile (\<lambda>k. key_less k key) ks \<noteq> []"
  shows "copy_while_less_unchecked t ks key out
       = Inr (dropWhile (\<lambda>k. key_less k key) ks, out @ takeWhile (\<lambda>k. key_less k key) ks)"
  using assms
proof (induction ks arbitrary: out)
  case Nil
  then show ?case by simp
next
  case (Cons k ks)
  show ?case
  proof (cases "key_less k key")
    case False
    then show ?thesis by simp
  next
    case True
    have p: "put_key t out k = Inr (out @ [k])"
      using Cons.prems True by (simp add: put_key_def)
    have a: "length (out @ [k]) + length (takeWhile (\<lambda>k. key_less k key) ks) \<le> leafslotmax t"
      using Cons.prems True by simp
    have b: "dropWhile (\<lambda>k. key_less k key) ks \<noteq> []"
      using Cons.prems True by simp
    from Cons.IH [OF a b] show ?thesis using True p by simp
  qed
qed

text \<open>In a sorted leaf the keys below a key of the leaf are exactly the keys before it.\<close>

lemma sorted_split_at_member:
  assumes "sorted_wrt key_less ks" and "d \<in> set ks"
  shows "\<exists>hs. dropWhile (\<lambda>k. key_less k d) ks = d # hs
            \<and> ks = takeWhile (\<lambda>k. key_less k d) ks @ d # hs"
  using assms
proof (induction ks)
  case Nil
  then show ?case by simp
next
  case (Cons k ks)
  show ?case
  proof (cases "k = d")
    case True
    then show ?thesis by (simp add: key_less_irrefl)
  next
    case False
    then have d: "d \<in> set ks" using Cons.prems by simp
    then have "key_less k d" using Cons.prems by simp
    moreover have "sorted_wrt key_less ks" using Cons.prems by simp
    ultimately show ?thesis using Cons.IH d by simp
  qed
qed

lemma sorted_dropWhile_above:
  assumes "sorted_wrt key_less ks" and "x \<notin> set ks"
  shows "\<forall>h\<in>set (dropWhile (\<lambda>k. key_less k x) ks). key_less x h"
  using assms
proof (induction ks)
  case Nil
  then show ?case by simp
next
  case (Cons k ks)
  show ?case
  proof (cases "key_less k x")
    case True
    then show ?thesis using Cons by simp
  next
    case False
    then have kx: "key_less x k" using key_less_total [of k x] Cons.prems by auto
    then have "\<forall>h\<in>set ks. key_less x h"
      using Cons.prems by (auto intro: key_less_trans)
    then show ?thesis using False kx by simp
  qed
qed

lemma takeWhile_below: "\<forall>l\<in>set (takeWhile (\<lambda>k. key_less k x) ks). key_less l x"
  by (metis in_set_conv_nth length_takeWhile_le nth_length_takeWhile linorder_not_less
      takeWhile_nth set_takeWhileD)


lemma op_keys_Cons:
  "op_keys ty (u # us) = (if type u = ty then data u # op_keys ty us else op_keys ty us)"
  by (simp add: op_keys_def)

lemma op_keys_subset: "set (op_keys ty us) \<subseteq> data ` set us"
  by (auto simp: op_keys_def)

lemma op_keys_sorted:
  "sorted_wrt key_less (map data us) \<Longrightarrow> sorted_wrt key_less (op_keys ty us)"
  by (simp add: op_keys_def sorted_wrt_map sorted_wrt_filter)

lemma length_le_of_distinct_subset:
  assumes "distinct xs" and "set xs \<subseteq> set ys"
  shows "length xs \<le> length ys"
proof -
  have "length xs = card (set xs)" using assms(1) by (simp add: distinct_card)
  also have "\<dots> \<le> card (set ys)" using assms(2) by (simp add: card_mono)
  also have "\<dots> \<le> length ys" by (rule card_length)
  finally show ?thesis .
qed

lemma deletes_bounded:
  assumes "sorted_wrt key_less (map data us)"
    and "\<forall>u\<in>set us. type u = DELETE \<longrightarrow> data u \<in> set hs"
  shows "length (op_keys DELETE us) \<le> length hs"
proof (rule length_le_of_distinct_subset)
  show "distinct (op_keys DELETE us)"
    using assms(1) by (simp add: op_keys_sorted sorted_wrt_key_less_distinct)
  show "set (op_keys DELETE us) \<subseteq> set hs"
    using assms(2) by (auto simp: op_keys_def)
qed

lemma sorted_wrt_insert_middle:
  assumes "sorted_wrt key_less (as @ bs)"
    and "\<forall>a\<in>set as. key_less a x" and "\<forall>b\<in>set bs. key_less x b"
  shows "sorted_wrt key_less ((as @ [x]) @ bs)"
  using assms by (auto simp: sorted_wrt_append)

lemma sorted_wrt_remove_middle:
  assumes "sorted_wrt key_less (as @ d # bs)"
  shows "sorted_wrt key_less (as @ bs)"
  using assms by (auto simp: sorted_wrt_append)

lemma update_leaf_loop_correct:
  assumes "sorted_wrt key_less (out @ ks)"
    and "sorted_wrt key_less (map data us)"
    and "\<forall>a\<in>set out. \<forall>u\<in>set us. key_less a (data u)"
    and "\<forall>u\<in>set us. (type u = DELETE \<and> data u \<in> set ks) \<or> (type u = INSERT \<and> data u \<notin> set ks)"
    and "length out + length ks + length (op_keys INSERT us)
           \<le> leafslotmax t + length (op_keys DELETE us)"
  shows "\<exists>rest out'. update_leaf_loop t us ks out = Inr (rest, out')
           \<and> sorted_wrt key_less (out' @ rest)
           \<and> set (out' @ rest)
               = (set (out @ ks) - set (op_keys DELETE us)) \<union> set (op_keys INSERT us)
           \<and> length (out' @ rest) + length (op_keys DELETE us)
               = length out + length ks + length (op_keys INSERT us)"
  using assms
proof (induction us arbitrary: ks out)
  case Nil
  then show ?case by (simp add: op_keys_def)
next
  case (Cons u us)
  define x where "x = data u"
  define lows where "lows = takeWhile (\<lambda>k. key_less k x) ks"
  define highs where "highs = dropWhile (\<lambda>k. key_less k x) ks"
  have ks: "ks = lows @ highs" by (simp add: lows_def highs_def)
  have lows_lt: "\<forall>l\<in>set lows. key_less l x" unfolding lows_def by (rule takeWhile_below)
  have sorted_ks: "sorted_wrt key_less ks" using Cons.prems(1) by (simp add: sorted_wrt_append)
  have sorted_us: "sorted_wrt key_less (map data us)" using Cons.prems(2) by simp
  have x_lt_us: "\<forall>u'\<in>set us. key_less x (data u')" using Cons.prems(2) by (simp add: x_def)
  have out_lt_x: "\<forall>a\<in>set out. key_less a x" using Cons.prems(3) by (simp add: x_def)
  have out_lt_us: "\<forall>a\<in>set out. \<forall>u'\<in>set us. key_less a (data u')" using Cons.prems(3) by simp
  have us_ok: "\<forall>u'\<in>set us. (type u' = DELETE \<and> data u' \<in> set ks) \<or> (type u' = INSERT \<and> data u' \<notin> set ks)"
    using Cons.prems(4) by simp
  have not_low: "\<forall>u'\<in>set us. data u' \<notin> set lows"
    using lows_lt x_lt_us key_less_asym by blast
  have new_out_lt: "\<forall>a\<in>set (out @ lows). \<forall>u'\<in>set us. key_less a (data u')"
    using out_lt_us lows_lt x_lt_us by (auto intro: key_less_trans)
  have x_notin_dels: "x \<notin> set (op_keys DELETE us)"
    using x_lt_us key_less_irrefl by (auto simp: op_keys_def)
  show ?case
  proof (cases "type u")
    case DELETE
    have x_in: "x \<in> set ks" using Cons.prems(4) DELETE by (simp add: x_def)
    obtain hs where hs: "highs = x # hs"
      using sorted_split_at_member [OF sorted_ks x_in] by (auto simp: highs_def)
    have ks': "ks = lows @ x # hs" using ks hs by simp
    have dist: "distinct (out @ lows @ x # hs)"
      using Cons.prems(1) ks' sorted_wrt_key_less_distinct by metis
    have in_hs: "\<forall>u'\<in>set us. type u' = DELETE \<longrightarrow> data u' \<in> set hs"
    proof (intro ballI impI)
      fix u' assume u': "u' \<in> set us" and d: "type u' = DELETE"
      then have "data u' \<in> set ks" using us_ok by auto
      moreover have "data u' \<notin> set lows" using not_low u' by simp
      moreover have "data u' \<noteq> x" using x_lt_us u' key_less_irrefl by metis
      ultimately show "data u' \<in> set hs" by (simp add: ks')
    qed
    have nd: "length (op_keys DELETE us) \<le> length hs"
      by (rule deletes_bounded [OF sorted_us in_hs])
    have cap: "length out + length ks + length (op_keys INSERT us)
           \<le> leafslotmax t + 1 + length (op_keys DELETE us)"
      using Cons.prems(5) DELETE by (simp add: op_keys_Cons)
    have len_ks: "length ks = length lows + 1 + length hs" by (simp add: ks')
    have cap1: "length out + length lows \<le> leafslotmax t"
      using cap nd len_ks by linarith
    have c1: "length out + length (takeWhile (\<lambda>k. key_less k x) ks) \<le> leafslotmax t"
      using cap1 by (simp add: lows_def)
    have c2: "dropWhile (\<lambda>k. key_less k x) ks \<noteq> []"
      using hs by (simp add: highs_def)
    have copy: "copy_while_less_unchecked t ks x out = Inr (x # hs, out @ lows)"
      using copy_while_less_unchecked_eq [OF c1 c2] hs
      by (simp only: lows_def highs_def)
    have step: "update_leaf_loop t (u # us) ks out = update_leaf_loop t us hs (out @ lows)"
      using DELETE copy by (simp add: x_def)
    have p1: "sorted_wrt key_less ((out @ lows) @ hs)"
      using Cons.prems(1) ks' sorted_wrt_remove_middle [of "out @ lows" x hs] by simp
    have p4: "\<forall>u'\<in>set us. (type u' = DELETE \<and> data u' \<in> set hs) \<or> (type u' = INSERT \<and> data u' \<notin> set hs)"
    proof
      fix u' assume u': "u' \<in> set us"
      show "(type u' = DELETE \<and> data u' \<in> set hs) \<or> (type u' = INSERT \<and> data u' \<notin> set hs)"
      proof (cases "type u'")
        case DELETE
        then show ?thesis using in_hs u' by simp
      next
        case INSERT
        then have "data u' \<notin> set ks" using us_ok u' by auto
        then show ?thesis using INSERT by (simp add: ks')
      qed
    qed
    have p5: "length (out @ lows) + length hs + length (op_keys INSERT us)
           \<le> leafslotmax t + length (op_keys DELETE us)"
      using cap len_ks by simp
    from Cons.IH [OF p1 sorted_us new_out_lt p4 p5]
    obtain rest out' where r: "update_leaf_loop t us hs (out @ lows) = Inr (rest, out')"
      and r1: "sorted_wrt key_less (out' @ rest)"
      and r2: "set (out' @ rest)
               = (set ((out @ lows) @ hs) - set (op_keys DELETE us)) \<union> set (op_keys INSERT us)"
      and r3: "length (out' @ rest) + length (op_keys DELETE us)
               = length (out @ lows) + length hs + length (op_keys INSERT us)"
      by blast
    have x_notin: "x \<notin> set ((out @ lows) @ hs)" using dist by auto
    have s2: "set (out' @ rest)
               = (set (out @ ks) - set (op_keys DELETE (u # us))) \<union> set (op_keys INSERT (u # us))"
      using r2 x_notin DELETE by (auto simp: op_keys_Cons ks' x_def)
    have s3: "length (out' @ rest) + length (op_keys DELETE (u # us))
               = length out + length ks + length (op_keys INSERT (u # us))"
      using r3 DELETE len_ks by (simp add: op_keys_Cons)
    have "update_leaf_loop t (u # us) ks out = Inr (rest, out')"
      using step r by (rule trans)
    then show ?thesis
      using r1 s2 s3 by (intro exI conjI)
  next
    case INSERT
    have x_notin: "x \<notin> set ks" using Cons.prems(4) INSERT by (simp add: x_def)
    have highs_gt: "\<forall>h\<in>set highs. key_less x h"
      unfolding highs_def by (rule sorted_dropWhile_above [OF sorted_ks x_notin])
    have in_highs: "\<forall>u'\<in>set us. type u' = DELETE \<longrightarrow> data u' \<in> set highs"
    proof (intro ballI impI)
      fix u' assume u': "u' \<in> set us" and d: "type u' = DELETE"
      then have "data u' \<in> set ks" using us_ok by auto
      moreover have "data u' \<notin> set lows" using not_low u' by simp
      ultimately show "data u' \<in> set highs" using ks by auto
    qed
    have nd: "length (op_keys DELETE us) \<le> length highs"
      by (rule deletes_bounded [OF sorted_us in_highs])
    have cap: "length out + length ks + 1 + length (op_keys INSERT us)
           \<le> leafslotmax t + length (op_keys DELETE us)"
      using Cons.prems(5) INSERT by (simp add: op_keys_Cons)
    have len_ks: "length ks = length lows + length highs" using ks by (metis length_append)
    have cap1: "length out + length lows < leafslotmax t"
      using cap nd len_ks by linarith
    have c1: "length out + length (takeWhile (\<lambda>k. key_less k x) ks) \<le> leafslotmax t"
      using cap1 by (simp add: lows_def)
    have copy: "copy_while_less t ks x out = Inr (highs, out @ lows)"
      using copy_while_less_eq [OF c1] by (simp only: lows_def highs_def)
    have put: "put_key t (out @ lows) x = Inr ((out @ lows) @ [x])"
      using cap1 by (simp add: put_key_def)
    have step: "update_leaf_loop t (u # us) ks out = update_leaf_loop t us highs ((out @ lows) @ [x])"
      using INSERT copy put by (simp add: x_def)
    have "sorted_wrt key_less ((out @ lows) @ highs)" using Cons.prems(1) ks by simp
    moreover have "\<forall>a\<in>set (out @ lows). key_less a x" using out_lt_x lows_lt by auto
    ultimately have p1: "sorted_wrt key_less (((out @ lows) @ [x]) @ highs)"
      using highs_gt by (rule sorted_wrt_insert_middle)
    have p3: "\<forall>a\<in>set ((out @ lows) @ [x]). \<forall>u'\<in>set us. key_less a (data u')"
      using new_out_lt x_lt_us by auto
    have p4: "\<forall>u'\<in>set us. (type u' = DELETE \<and> data u' \<in> set highs) \<or> (type u' = INSERT \<and> data u' \<notin> set highs)"
    proof
      fix u' assume u': "u' \<in> set us"
      show "(type u' = DELETE \<and> data u' \<in> set highs) \<or> (type u' = INSERT \<and> data u' \<notin> set highs)"
      proof (cases "type u'")
        case DELETE
        then show ?thesis using in_highs u' by simp
      next
        case INSERT
        then have "data u' \<notin> set ks" using us_ok u' by auto
        then show ?thesis using INSERT ks by auto
      qed
    qed
    have p5: "length ((out @ lows) @ [x]) + length highs + length (op_keys INSERT us)
           \<le> leafslotmax t + length (op_keys DELETE us)"
      using cap len_ks by simp
    from Cons.IH [OF p1 sorted_us p3 p4 p5]
    obtain rest out' where r: "update_leaf_loop t us highs ((out @ lows) @ [x]) = Inr (rest, out')"
      and r1: "sorted_wrt key_less (out' @ rest)"
      and r2: "set (out' @ rest)
               = (set (((out @ lows) @ [x]) @ highs) - set (op_keys DELETE us))
                 \<union> set (op_keys INSERT us)"
      and r3: "length (out' @ rest) + length (op_keys DELETE us)
               = length ((out @ lows) @ [x]) + length highs + length (op_keys INSERT us)"
      by blast
    have set_ks: "set ks = set lows \<union> set highs" using ks by (metis set_append)
    have s2: "set (out' @ rest)
               = (set (out @ ks) - set (op_keys DELETE (u # us))) \<union> set (op_keys INSERT (u # us))"
      using r2 x_notin_dels INSERT by (auto simp: op_keys_Cons set_ks x_def)
    have s3: "length (out' @ rest) + length (op_keys DELETE (u # us))
               = length out + length ks + length (op_keys INSERT (u # us))"
      using r3 INSERT len_ks by (simp add: op_keys_Cons)
    have "update_leaf_loop t (u # us) ks out = Inr (rest, out')"
      using step r by (rule trans)
    then show ?thesis
      using r1 s2 s3 by (intro exI conjI)
  qed
qed


lemma leaf_batch_ok_iff:
  "leaf_batch_ok ks us \<longleftrightarrow>
     sorted_wrt key_less (map data us)
     \<and> (\<forall>u\<in>set us. (type u = DELETE \<and> data u \<in> set ks) \<or> (type u = INSERT \<and> data u \<notin> set ks))"
  by (simp add: leaf_batch_ok_def list_all_iff)

lemma min_element_Inr: "xs \<noteq> [] \<Longrightarrow> \<exists>m. min_element xs = Inr m"
  by (cases xs) (simp_all add: min_element_def)

text \<open>
  C6. A leaf with sorted keys \<open>ks\<close> is patched in place with the operations \<open>us\<close> of its
  sub-range, which satisfy the preconditions and leave between 1 and \<open>leafslotmax\<close>
  keys.  Then the slot's child is a leaf whose keys are sorted and are exactly the keys
  of \<open>ks\<close> without the DELETE targets, with the INSERT keys; the old leaf has become the
  spare leaf and nothing else of the tree object has changed; the router of the slot is
  the last key, its minimum the first label of least second weight, its weight is
  untouched.
\<close>

theorem update_leaf_in_current_tree_merges:
  assumes "childid sl = leaf_node ks" and "sorted_wrt key_less ks"
    and "updates_range s (upd_begin upd) (upd_end upd) = Inr us"
    and "leaf_batch_ok ks us"
    and "length ks + length (op_keys INSERT us) \<le> leafslotmax t + length (op_keys DELETE us)"
    and "length (op_keys DELETE us) < length ks + length (op_keys INSERT us)"
  shows "\<exists>res sl'. update_leaf_in_current_tree t s sl upd = Inr (s\<lparr>spare_leaf := leaf_node ks\<rparr>, sl')
           \<and> childid sl' = leaf_node res
           \<and> sorted_wrt key_less res
           \<and> set res = (set ks - set (op_keys DELETE us)) \<union> set (op_keys INSERT us)
           \<and> length res + length (op_keys DELETE us) = length ks + length (op_keys INSERT us)
           \<and> slotkey sl' = last res
           \<and> min_element (map label res) = Inr (minimum sl')
           \<and> weight sl' = weight sl"
proof -
  have ok: "sorted_wrt key_less (map data us)"
    "\<forall>u\<in>set us. (type u = DELETE \<and> data u \<in> set ks) \<or> (type u = INSERT \<and> data u \<notin> set ks)"
    using assms(4) by (simp_all add: leaf_batch_ok_iff)
  have "\<exists>rest out'. update_leaf_loop t us ks [] = Inr (rest, out')
           \<and> sorted_wrt key_less (out' @ rest)
           \<and> set (out' @ rest) = (set ks - set (op_keys DELETE us)) \<union> set (op_keys INSERT us)
           \<and> length (out' @ rest) + length (op_keys DELETE us)
               = length ks + length (op_keys INSERT us)"
    using update_leaf_loop_correct [of "[]" ks us t] assms(2,5) ok by simp
  then obtain rest out' where loop: "update_leaf_loop t us ks [] = Inr (rest, out')"
    and r1: "sorted_wrt key_less (out' @ rest)"
    and r2: "set (out' @ rest) = (set ks - set (op_keys DELETE us)) \<union> set (op_keys INSERT us)"
    and r3: "length (out' @ rest) + length (op_keys DELETE us)
               = length ks + length (op_keys INSERT us)"
    by auto
  define res where "res = out' @ rest"
  have fits: "\<not> length out' + length rest > leafslotmax t"
    using r3 assms(5) by simp
  have ne: "res \<noteq> []" using r3 assms(6) by (auto simp: res_def)
  obtain m where m: "min_element (map label res) = Inr m"
    using min_element_Inr [of "map label res"] ne by auto
  define sl' where "sl' = set_childid (set_slotkey (set_minimum sl m) (last res)) (leaf_node res)"
  have e: "update_leaf_in_current_tree t s sl upd = Inr (s\<lparr>spare_leaf := leaf_node ks\<rparr>, sl')"
    using assms(1,3) loop fits ne m
    by (simp add: update_leaf_in_current_tree_def Let_def set_min_element_def res_def sl'_def)
  have f: "childid sl' = leaf_node res" "slotkey sl' = last res" "minimum sl' = m"
    "weight sl' = weight sl"
    by (simp_all add: sl'_def set_childid_def set_slotkey_def set_minimum_def)
  have "update_leaf_in_current_tree t s sl upd = Inr (s\<lparr>spare_leaf := leaf_node ks\<rparr>, sl')
           \<and> childid sl' = leaf_node res
           \<and> sorted_wrt key_less res
           \<and> set res = (set ks - set (op_keys DELETE us)) \<union> set (op_keys INSERT us)
           \<and> length res + length (op_keys DELETE us) = length ks + length (op_keys INSERT us)
           \<and> slotkey sl' = last res
           \<and> min_element (map label res) = Inr (minimum sl')
           \<and> weight sl' = weight sl"
    using e f r1 r2 r3 m unfolding res_def [symmetric] by simp
  then show ?thesis by blast
qed

theorem update_leaf_in_current_tree_merges_witness:
  "update_leaf_in_current_tree \<lparr>LEAF_PARAMETER_K = 8, BRANCHING_PARAMETER_B = 8\<rparr>
     ((new_btree :: 32 word btree)
        \<lparr>updates := [Operation DELETE (NodeLabel 2 (Label 2 7)),
                     Operation INSERT (NodeLabel 3 (Label 3 8))]\<rparr>)
     (inner_node_data (NodeLabel 4 (Label 4 3)) 3
        (leaf_node [NodeLabel 1 (Label 1 9), NodeLabel 2 (Label 2 7), NodeLabel 4 (Label 4 3)])
        (Label 4 3))
     \<lparr>rebalancing_needed = False, upd_weight = 3, upd_begin = 0, upd_end = 2\<rparr>
   = Inr ((new_btree :: 32 word btree)
            \<lparr>updates := [Operation DELETE (NodeLabel 2 (Label 2 7)),
                         Operation INSERT (NodeLabel 3 (Label 3 8))],
             spare_leaf := leaf_node [NodeLabel 1 (Label 1 9), NodeLabel 2 (Label 2 7),
                                      NodeLabel 4 (Label 4 3)]\<rparr>,
          inner_node_data (NodeLabel 4 (Label 4 3)) 3
            (leaf_node [NodeLabel 1 (Label 1 9), NodeLabel 3 (Label 3 8), NodeLabel 4 (Label 4 3)])
            (Label 4 3))"
proof -
  let ?t = "\<lparr>LEAF_PARAMETER_K = 8, BRANCHING_PARAMETER_B = 8\<rparr>"
  let ?us = "[Operation DELETE (NodeLabel 2 (Label 2 7)),
              Operation INSERT (NodeLabel 3 (Label 3 8))] :: 32 word Operation list"
  let ?s = "(new_btree :: 32 word btree)\<lparr>updates := ?us\<rparr>"
  let ?ks = "[NodeLabel 1 (Label 1 9), NodeLabel 2 (Label 2 7), NodeLabel 4 (Label 4 3)]
              :: 32 word data_type list"
  let ?sl = "inner_node_data (NodeLabel 4 (Label 4 3)) 3 (leaf_node ?ks) (Label 4 3)"
  let ?upd = "\<lparr>rebalancing_needed = False, upd_weight = 3, upd_begin = 0, upd_end = 2\<rparr>"
  have h1: "childid ?sl = leaf_node ?ks" by simp
  have h2: "sorted_wrt key_less ?ks" by (simp add: key_less_def BTreeSetOrderer_def)
  have h3: "updates_range ?s (upd_begin ?upd) (upd_end ?upd) = Inr ?us"
    by (simp add: updates_range_def)
  have h4: "leaf_batch_ok ?ks ?us"
    by (simp add: leaf_batch_ok_def key_less_def BTreeSetOrderer_def)
  have h5: "length ?ks + length (op_keys INSERT ?us) \<le> leafslotmax ?t + length (op_keys DELETE ?us)"
    by (simp add: op_keys_def traits_8_8)
  have h6: "length (op_keys DELETE ?us) < length ?ks + length (op_keys INSERT ?us)"
    by (simp add: op_keys_def)
  obtain res sl' where r: "update_leaf_in_current_tree ?t ?s ?sl ?upd
        = Inr (?s\<lparr>spare_leaf := leaf_node ?ks\<rparr>, sl')"
    and c: "childid sl' = leaf_node res"
    using update_leaf_in_current_tree_merges [OF h1 h2 h3 h4 h5 h6] by blast
  have e: "update_leaf_in_current_tree ?t ?s ?sl ?upd
      = Inr (?s\<lparr>spare_leaf := leaf_node ?ks\<rparr>,
             inner_node_data (NodeLabel 4 (Label 4 3)) 3
               (leaf_node [NodeLabel 1 (Label 1 9), NodeLabel 3 (Label 3 8), NodeLabel 4 (Label 4 3)])
               (Label 4 3))"
    by (simp add: update_leaf_in_current_tree_def updates_range_def Let_def put_key_def traits_8_8
        key_less_def BTreeSetOrderer_def set_min_element_def min_element_def set_minimum_def
        set_slotkey_def set_childid_def)
  show ?thesis using r e by simp
qed


section \<open>The decision to rebuild the root\<close>














section \<open>The weight bounds after a bulk update\<close>

lemma first_keys_9:
  "first_keys 9 = [NodeLabel 1 (Label 1 0), NodeLabel 2 (Label 2 0),
      NodeLabel 3 (Label 3 0), NodeLabel 4 (Label 4 0), NodeLabel 5 (Label 5 0),
      NodeLabel 6 (Label 6 0), NodeLabel 7 (Label 7 0), NodeLabel 8 (Label 8 0),
      NodeLabel 9 (Label 9 0)]"
  by (simp add: first_keys_def upt_rec)

lemma verify_nine_key_tree:
  "verify \<lparr>LEAF_PARAMETER_K = 8, BRANCHING_PARAMETER_B = 8\<rparr> nine_key_tree = Inr ()"
  by (simp add: verify_def nine_key_tree_def new_btree_def first_keys_9 weights_8_8 level_def
      level_pred_def key_lessequal_def key_less_def key_greaterequal_def key_equal_def
      BTreeSetOrderer_def)

lemma verify_underflow_tree:
  "verify \<lparr>LEAF_PARAMETER_K = 8, BRANCHING_PARAMETER_B = 8\<rparr> underflow_tree = Inl AssertionFailed"
  by (simp add: verify_def underflow_tree_def new_btree_def first_keys_9 weights_8_8 level_def
      level_pred_def key_lessequal_def key_less_def key_greaterequal_def key_equal_def
      BTreeSetOrderer_def)


lemma delete_begin:
  "apply_updates_begin nine_key_tree (map (Operation DELETE) (drop 6 (first_keys 9))) DELETES_ONLY
     = (6, nine_key_tree\<lparr>updates := map (Operation DELETE) (drop 6 (first_keys 9)),
                          batch_type := DELETES_ONLY,
                          stats := \<lparr>itemcount = 6, leaves = 2, innernodes = 1\<rparr>\<rparr>)"
  by (simp add: apply_updates_begin_def setOperationsAndComputeWeightDelta_def
      nine_key_tree_def new_btree_def size_btree_def OperationBatchType_value_def first_keys_9
      Let_def)

lemma delete_schedule:
  "schedule_loop (nine_key_tree\<lparr>updates := map (Operation DELETE) (drop 6 (first_keys 9)),
                          batch_type := DELETES_ONLY,
                          stats := \<lparr>itemcount = 6, leaves = 2, innernodes = 1\<rparr>\<rparr>)
      2 8 3
      [inner_node_data (NodeLabel 5 (Label 5 0)) 5 (leaf_node (take 5 (first_keys 9)))
                    (Label 1 0),
       inner_node_data (NodeLabel 9 (Label 9 0)) 4 (leaf_node (drop 5 (first_keys 9)))
                    (Label 6 0)] 0
    = Inr [\<lparr>rebalancing_needed = False, upd_weight = 5, upd_begin = 0, upd_end = 0\<rparr>,
           \<lparr>rebalancing_needed = True, upd_weight = 1, upd_begin = 0, upd_end = 3\<rparr>]"
  by (simp add: first_keys_9 find_lower.simps size_to_int_def int_to_size_def INT_MAX_def
      INT_MIN_def key_less_def BTreeSetOrderer_def scheduleSubTreeUpdate_def getWeightDelta_def
      OperationBatchType_value_def nine_key_tree_def new_btree_def Let_def)


lemma delete_apply:
  "apply_updates \<lparr>LEAF_PARAMETER_K = 8, BRANCHING_PARAMETER_B = 8\<rparr> nine_key_tree
      (map (Operation DELETE) (drop 6 (first_keys 9))) DELETES_ONLY = Inr underflow_tree"
proof -
  have l6: "num_optimal_levels \<lparr>LEAF_PARAMETER_K = 8, BRANCHING_PARAMETER_B = 8\<rparr> 6 = 1"
    by (rule num_optimal_levels_8_8_low) simp_all
  show ?thesis
    by (simp add: apply_updates_def apply_updates_begin_def setOperationsAndComputeWeightDelta_def
      nine_key_tree_def underflow_tree_def new_btree_def size_btree_def OperationBatchType_value_def
      first_keys_9 Let_def ensure_root_def l6 rebuild_needed_def level_def level_pred_def
      weights_8_8 traits_8_8 designated_subtreesize_8_8_1
      update.simps rewrite_session.simps updateSubTreesInRange.simps
      create_subtree_from_leaves.simps create_subtrees_loop.simps
      set_childid_def set_weight_def set_slotkey_def set_minimum_def uninitialized_slot_def
      find_lower.simps size_to_int_def int_to_size_def INT_MAX_def
      INT_MIN_def key_less_def BTreeSetOrderer_def scheduleSubTreeUpdate_def getWeightDelta_def
      hasUpdates_def allocate_inner_def allocate_new_leaves_def num_subtrees_def free_node_def
      decrement_def write_updated_leaf_to_new_tree_def updates_range_def put_and_advance_def
      write_key_def set_slotuse_def hasNextLeaf_def finish_slot_def set_min_element_def
      min_element_def min_label_def update_router_def slotuse_def isleafnode_def)
qed


lemma insert_apply:
  "apply_updates \<lparr>LEAF_PARAMETER_K = 8, BRANCHING_PARAMETER_B = 8\<rparr> new_btree
      (map (Operation INSERT) (first_keys 9)) INSERTS_ONLY = Inr nine_key_tree"
proof -
  have l9: "num_optimal_levels \<lparr>LEAF_PARAMETER_K = 8, BRANCHING_PARAMETER_B = 8\<rparr> 9 = 1"
    by (rule num_optimal_levels_8_8_low) simp_all
  show ?thesis
    by (simp add: apply_updates_def apply_updates_begin_def setOperationsAndComputeWeightDelta_def
      nine_key_tree_def new_btree_def size_btree_def OperationBatchType_value_def
      first_keys_9 Let_def ensure_root_def l9 rebuild_needed_def level_def level_pred_def
      weights_8_8 traits_8_8 designated_subtreesize_8_8_1 allocate_leaf_def
      update.simps
      create_subtree_from_leaves.simps create_subtrees_loop.simps
      set_childid_def set_weight_def set_slotkey_def set_minimum_def uninitialized_slot_def
      key_less_def BTreeSetOrderer_def
      allocate_inner_def allocate_new_leaves_def num_subtrees_def free_node_def
      decrement_def write_updated_leaf_to_new_tree_def updates_range_def put_and_advance_def
      write_key_def set_slotuse_def hasNextLeaf_def finish_slot_def set_min_element_def
      min_element_def min_label_def update_router_def slotuse_def isleafnode_def)
qed

text \<open>
  C2. With \<open>k = b = 8\<close>, the keys 1 to 9 are inserted into the empty tree: the result has
  two leaves of 5 and 4 keys and passes \<open>verify\<close>.  Deleting the keys 7, 8 and 9 (a
  sorted batch of present keys) leaves one key in the last leaf.  The rewrite session
  of the root has no slot to the right of it to merge with, and the slot before it
  needs no rebalancing, so the last leaf is rebuilt alone with weight 1, below
  \<open>minweight 0 = 2\<close>; \<open>verify\<close> then fails its assertion on that leaf.
\<close>

theorem last_subtree_underflow:
  "apply_updates \<lparr>LEAF_PARAMETER_K = 8, BRANCHING_PARAMETER_B = 8\<rparr> new_btree
      (map (Operation INSERT) (first_keys 9)) INSERTS_ONLY = Inr nine_key_tree
   \<and> verify \<lparr>LEAF_PARAMETER_K = 8, BRANCHING_PARAMETER_B = 8\<rparr> nine_key_tree = Inr ()
   \<and> spec_weight_invariant \<lparr>LEAF_PARAMETER_K = 8, BRANCHING_PARAMETER_B = 8\<rparr> nine_key_tree
   \<and> sorted_wrt key_less (drop 6 (first_keys 9))
   \<and> set (drop 6 (first_keys 9)) \<subseteq> set (tree_keys nine_key_tree)
   \<and> apply_updates \<lparr>LEAF_PARAMETER_K = 8, BRANCHING_PARAMETER_B = 8\<rparr> nine_key_tree
        (map (Operation DELETE) (drop 6 (first_keys 9))) DELETES_ONLY = Inr underflow_tree
   \<and> tree_keys underflow_tree = take 6 (first_keys 9)
   \<and> root underflow_tree
        = Some (inner_node 1
                 [inner_node_data (NodeLabel 5 (Label 5 0)) 5 (leaf_node (take 5 (first_keys 9)))
                    (Label 1 0),
                  inner_node_data (NodeLabel 6 (Label 6 0)) 1 (leaf_node [NodeLabel 6 (Label 6 0)])
                    (Label 6 0)])
   \<and> minweight \<lparr>LEAF_PARAMETER_K = 8, BRANCHING_PARAMETER_B = 8\<rparr> 0 = 2
   \<and> \<not> spec_weight_invariant \<lparr>LEAF_PARAMETER_K = 8, BRANCHING_PARAMETER_B = 8\<rparr> underflow_tree
   \<and> verify \<lparr>LEAF_PARAMETER_K = 8, BRANCHING_PARAMETER_B = 8\<rparr> underflow_tree
        = Inl AssertionFailed"
proof -
  let ?t = "\<lparr>LEAF_PARAMETER_K = 8, BRANCHING_PARAMETER_B = 8\<rparr>"
  have a: "spec_weight_invariant ?t nine_key_tree"
    by (simp add: spec_weight_invariant_def nine_key_tree_def new_btree_def first_keys_9
        weights_8_8)
  have b: "sorted_wrt key_less (drop 6 (first_keys 9))"
    by (simp add: first_keys_9 key_less_def BTreeSetOrderer_def)
  have c: "set (drop 6 (first_keys 9)) \<subseteq> set (tree_keys nine_key_tree)"
    by (simp add: first_keys_9 nine_key_tree_def new_btree_def tree_keys_def)
  have d: "tree_keys underflow_tree = take 6 (first_keys 9)
     \<and> root underflow_tree
        = Some (inner_node 1
                 [inner_node_data (NodeLabel 5 (Label 5 0)) 5 (leaf_node (take 5 (first_keys 9)))
                    (Label 1 0),
                  inner_node_data (NodeLabel 6 (Label 6 0)) 1 (leaf_node [NodeLabel 6 (Label 6 0)])
                    (Label 6 0)])"
    by (simp add: underflow_tree_def new_btree_def tree_keys_def first_keys_9)
  have e: "minweight ?t 0 = 2" by (simp add: weights_8_8)
  have f: "\<not> spec_weight_invariant ?t underflow_tree"
    by (simp add: spec_weight_invariant_def underflow_tree_def new_btree_def first_keys_9
        weights_8_8)
  show ?thesis
    using insert_apply verify_nine_key_tree a b c delete_apply d e f verify_underflow_tree
    by simp
qed


section \<open>The Pareto minima of a tree\<close>

lemma min_element_loop_Cons:
  "min_element_loop b (x # xs) =
     (if second_weight (min_element_loop x xs) < second_weight b
      then min_element_loop x xs else b)"
proof (induction xs arbitrary: b x)
  case Nil
  show ?case by simp
next
  case (Cons y ys)
  have "min_element_loop b (x # y # ys)
      = min_element_loop (if second_weight x < second_weight b then x else b) (y # ys)"
    by simp
  also have "\<dots> = (if second_weight (min_element_loop x (y # ys)) < second_weight b
      then min_element_loop x (y # ys) else b)"
    unfolding Cons.IH [of _ y] by auto
  finally show ?case .
qed

lemma min_element_loop_mem: "min_element_loop b xs \<in> set (b # xs)"
  by (induction xs arbitrary: b) (auto split: if_splits)

lemma min_element_loop_least:
  "x \<in> set (b # xs) \<Longrightarrow> second_weight (min_element_loop b xs) \<le> second_weight x"
proof (induction xs arbitrary: b x)
  case Nil
  then show ?case by simp
next
  case (Cons y ys)
  let ?b = "if second_weight y < second_weight b then y else b"
  have m: "second_weight (min_element_loop ?b ys) \<le> second_weight ?b"
    using Cons.IH [of ?b ?b] by simp
  have lb: "second_weight ?b \<le> second_weight b" and ly: "second_weight ?b \<le> second_weight y"
    by auto
  have e: "min_element_loop b (y # ys) = min_element_loop ?b ys" by simp
  consider "x = b" | "x = y" | "x \<in> set ys" using Cons.prems by auto
  then show ?case
  proof cases
    case 1
    then show ?thesis unfolding e using m lb by (metis order_trans)
  next
    case 2
    then show ?thesis unfolding e using m ly by (metis order_trans)
  next
    case 3
    then show ?thesis unfolding e using Cons.IH [of x ?b] by simp
  qed
qed

lemma find_pareto_minima_leaf_append:
  "find_pareto_minima_leaf (xs @ ys) mn acc =
     find_pareto_minima_leaf ys (min_element_loop mn (map label xs))
       (find_pareto_minima_leaf xs mn acc)"
proof (induction xs arbitrary: mn acc)
  case Nil
  show ?case by simp
next
  case (Cons k ks)
  show ?case
  proof (cases "improves (label k) mn")
    case True
    then have "(if second_weight (label k) < second_weight mn then label k else mn) = label k"
      by (auto simp: improves_def intro: label_type.expand)
    then show ?thesis using True Cons.IH [of "label k"] by simp
  next
    case False
    then have "(if second_weight (label k) < second_weight mn then label k else mn) = mn"
      by (auto simp: improves_def)
    then show ?thesis using False Cons.IH [of mn] by simp
  qed
qed

lemma find_pareto_minima_leaf_none:
  "\<forall>k\<in>set ks. \<not> improves (label k) mn \<Longrightarrow> find_pareto_minima_leaf ks mn acc = acc"
  by (induction ks) auto


lemma min_element_loop_first:
  assumes "sorted_wrt (\<lambda>a b. first_weight a \<le> first_weight b) (b # xs)"
    and "x \<in> set (b # xs)"
    and "second_weight x = second_weight (min_element_loop b xs)"
  shows "first_weight (min_element_loop b xs) \<le> first_weight x"
  using assms
proof (induction xs arbitrary: b x)
  case Nil
  then show ?case by simp
next
  case (Cons y ys)
  let ?b = "if second_weight y < second_weight b then y else b"
  have e: "min_element_loop b (y # ys) = min_element_loop ?b ys" by simp
  have srt: "sorted_wrt (\<lambda>a b. first_weight a \<le> first_weight b) (?b # ys)"
    using Cons.prems(1) by auto
  have b_y: "first_weight b \<le> first_weight y" using Cons.prems(1) by simp
  have m: "second_weight (min_element_loop ?b ys) \<le> second_weight ?b"
    by (rule min_element_loop_least) simp
  have eq: "second_weight x = second_weight (min_element_loop ?b ys)"
    using Cons.prems(3) unfolding e .
  show ?case
  proof (cases "x \<in> set (?b # ys)")
    case True
    show ?thesis unfolding e by (rule Cons.IH [OF srt True eq])
  next
    case False
    show ?thesis
    proof (cases "second_weight y < second_weight b")
      case True
      then have "x = b" using False Cons.prems(2) by auto
      then show ?thesis using True m eq by auto
    next
      case nl: False
      then have xy: "x = y" using False Cons.prems(2) by auto
      have b: "?b = b" using nl by simp
      have "second_weight b = second_weight (min_element_loop b ys)"
        using nl m eq xy b by auto
      then have "first_weight (min_element_loop b ys) \<le> first_weight b"
        using Cons.IH [of b b] srt b by simp
      then show ?thesis unfolding e b using b_y xy by simp
    qed
  qed
qed

lemma key_less_first_weight:
  "key_less a b \<Longrightarrow> first_weight (label a) \<le> first_weight (label b)"
  by (auto simp: key_less_def BTreeSetOrderer_def split: if_splits)

lemma sorted_first_weights:
  "sorted_wrt key_less ks \<Longrightarrow>
     sorted_wrt (\<lambda>a b. first_weight a \<le> first_weight b) (map label ks)"
  by (induction ks) (auto simp: key_less_first_weight)

text \<open>
  A subtree that the traversal skips: if the minimum of the subtree does not improve the
  running minimum, no key of the subtree does.
\<close>

lemma skipped_subtree:
  assumes m: "min_element (map label ks) = Inr m"
    and srt: "sorted_wrt (\<lambda>a b. first_weight a \<le> first_weight b) (map label ks)"
    and low: "\<forall>k\<in>set ks. first_weight mn \<le> first_weight (label k)"
    and ni: "\<not> improves m mn"
    and k: "k \<in> set ks"
  shows "\<not> improves (label k) mn"
proof
  assume imp: "improves (label k) mn"
  obtain k0 rest where ks: "ks = k0 # rest" using k by (cases ks) auto
  have mm: "m = min_element_loop (label k0) (map label rest)"
    using m by (simp add: min_element_def ks)
  have kin: "label k \<in> set (label k0 # map label rest)" using k ks by auto
  have least: "second_weight m \<le> second_weight (label k)"
    unfolding mm by (rule min_element_loop_least [OF kin])
  have ge: "second_weight mn \<le> second_weight m" using ni by (auto simp: improves_def)
  have tie: "first_weight (label k) = first_weight mn \<and> second_weight (label k) = second_weight mn"
    using imp least ge by (auto simp: improves_def)
  have seq: "second_weight (label k) = second_weight (min_element_loop (label k0) (map label rest))"
    using tie least ge mm by auto
  have f1: "first_weight m \<le> first_weight (label k)"
    unfolding mm using min_element_loop_first [OF _ kin seq] srt ks by simp
  have "m \<in> set (label k0 # map label rest)" unfolding mm by (rule min_element_loop_mem)
  then have "m \<in> label ` set ks" using ks by auto
  then have f2: "first_weight mn \<le> first_weight m" using low by auto
  have "first_weight m = first_weight mn \<and> second_weight m = second_weight mn"
    using f1 f2 tie least ge by auto
  then have "improves m mn" by (simp add: improves_def)
  then show False using ni by simp
qed

text \<open>A subtree that the traversal visits leaves its minimum as the running minimum.\<close>

lemma visited_subtree_minimum:
  assumes m: "min_element (map label ks) = Inr m"
  shows "min_element_loop mn (map label ks) = (if second_weight m < second_weight mn then m else mn)"
proof -
  obtain k0 rest where ks: "ks = k0 # rest" using m by (cases ks) (auto simp: min_element_def)
  have mm: "m = min_element_loop (label k0) (map label rest)"
    using m by (simp add: min_element_def ks)
  show ?thesis unfolding ks mm list.map by (rule min_element_loop_Cons)
qed


text \<open>
  The traversal of a tree emits what the scan of its keys in order emits, when the slot
  minima are those of the subtrees and the running minimum has a first weight not above
  those of the keys.
\<close>

lemma traversal_is_scan:
  "minima_ok n \<Longrightarrow>
     sorted_wrt (\<lambda>a b. first_weight a \<le> first_weight b) (map label (node_keys n)) \<Longrightarrow>
     \<forall>k\<in>set (node_keys n). first_weight mn \<le> first_weight (label k) \<Longrightarrow>
     find_pareto_minima_node n mn acc = find_pareto_minima_leaf (node_keys n) mn acc"
  "minima_ok_slots sls \<Longrightarrow>
     sorted_wrt (\<lambda>a b. first_weight a \<le> first_weight b) (map label (slots_keys sls)) \<Longrightarrow>
     \<forall>k\<in>set (slots_keys sls). first_weight mn \<le> first_weight (label k) \<Longrightarrow>
     find_pareto_minima_inner sls mn acc = find_pareto_minima_leaf (slots_keys sls) mn acc"
proof (induction n mn acc and sls mn acc
    rule: find_pareto_minima_node_find_pareto_minima_inner.induct)
  case (1 ks prefix_minima minima)
  show ?case by simp
next
  case (2 l sl prefix_minima minima)
  then show ?case by simp
next
  case (3 mn minima)
  show ?case by simp
next
  case (4 k w c m sls mn minima)
  let ?ks = "node_keys c"
  let ?rest = "slots_keys sls"
  have mo: "min_element (map label ?ks) = Inr m" and okc: "minima_ok c"
    and oks: "minima_ok_slots sls"
    using "4.prems"(1) by simp_all
  have srt: "sorted_wrt (\<lambda>a b. first_weight a \<le> first_weight b) (map label ?ks)"
    and srt_rest: "sorted_wrt (\<lambda>a b. first_weight a \<le> first_weight b) (map label ?rest)"
    and cross: "\<forall>x\<in>set ?ks. \<forall>y\<in>set ?rest. first_weight (label x) \<le> first_weight (label y)"
    using "4.prems"(2) by (simp_all add: sorted_wrt_append)
  have low: "\<forall>k\<in>set ?ks. first_weight mn \<le> first_weight (label k)"
    and low_rest: "\<forall>k\<in>set ?rest. first_weight mn \<le> first_weight (label k)"
    using "4.prems"(3) by simp_all
  have split: "find_pareto_minima_leaf (?ks @ ?rest) mn minima
      = find_pareto_minima_leaf ?rest (min_element_loop mn (map label ?ks))
          (find_pareto_minima_leaf ?ks mn minima)"
    by (rule find_pareto_minima_leaf_append)
  show ?case
  proof (cases "improves m mn")
    case True
    have run: "min_element_loop mn (map label ?ks) = m"
      using visited_subtree_minimum [OF mo, of mn] True
      by (auto simp: improves_def intro: label_type.expand)
    obtain k0 rest0 where ks: "?ks = k0 # rest0"
      using mo by (cases ?ks) (auto simp: min_element_def)
    have "m = min_element_loop (label k0) (map label rest0)"
      using mo by (simp add: min_element_def ks)
    then have "m \<in> set (label k0 # map label rest0)"
      using min_element_loop_mem [of "label k0" "map label rest0"] by simp
    then have "m \<in> label ` set ?ks" unfolding ks by auto
    then have low_m: "\<forall>k\<in>set ?rest. first_weight m \<le> first_weight (label k)"
      using cross by auto
    have c1: "find_pareto_minima_node c mn minima = find_pareto_minima_leaf ?ks mn minima"
      by (rule "4.IH"(1) [OF True okc srt low])
    have c2: "find_pareto_minima_inner sls m (find_pareto_minima_node c mn minima)
        = find_pareto_minima_leaf ?rest m (find_pareto_minima_node c mn minima)"
      by (rule "4.IH"(2) [OF True oks srt_rest low_m])
    show ?thesis using True c1 c2 split run by simp
  next
    case False
    have run: "min_element_loop mn (map label ?ks) = mn"
      using visited_subtree_minimum [OF mo, of mn] False by (auto simp: improves_def)
    have "\<forall>k\<in>set ?ks. \<not> improves (label k) mn"
      using skipped_subtree [OF mo srt low False] by blast
    then have none: "find_pareto_minima_leaf ?ks mn minima = minima"
      by (rule find_pareto_minima_leaf_none)
    have c3: "find_pareto_minima_inner sls mn minima = find_pareto_minima_leaf ?rest mn minima"
      by (rule "4.IH"(3) [OF False oks srt_rest low_rest])
    show ?thesis using False c3 split run none by simp
  qed
qed


lemma later_key_not_dominating: "key_less k k' \<Longrightarrow> \<not> dominates (label k') (label k)"
  by (auto simp: key_less_def BTreeSetOrderer_def dominates_def split: if_splits
      intro: label_type.expand)

lemma earlier_key_dominates_iff:
  "key_less k' k \<Longrightarrow>
     dominates (label k') (label k) \<longleftrightarrow>
       second_weight (label k') \<le> second_weight (label k) \<and> label k' \<noteq> label k"
  using key_less_first_weight [of k' k] by (auto simp: dominates_def)

lemma below_sentinel:
  fixes x :: "'w::len word"
  shows "x \<noteq> - 1 \<Longrightarrow> x < - 1"
  by (simp add: order_less_le)

text \<open>
  The scan of a sorted list of keys, started after the keys \<open>pre\<close> with the running
  minimum they leave, emits the Pareto minima of the whole list, except those whose
  second weight is the largest value of the type and whose first weight is not 0.
\<close>

lemma scan_emits:
  assumes "sorted_wrt key_less (pre @ ks)"
    and "\<forall>k'\<in>set pre. second_weight mn \<le> second_weight (label k')"
    and "mn = min_label \<or> (\<exists>k'\<in>set pre. label k' = mn)"
    and "\<forall>k'\<in>set pre. second_weight (label k') = second_weight mn
            \<longrightarrow> first_weight mn \<le> first_weight (label k')"
    and "second_weight mn = - 1 \<longrightarrow> mn = min_label"
  shows "find_pareto_minima_leaf ks mn acc
           = acc @ map (Operation DELETE)
               (filter (\<lambda>k. pareto_minimal (pre @ ks) k
                          \<and> (second_weight (label k) = - 1 \<longrightarrow> first_weight (label k) = 0)) ks)"
  using assms
proof (induction ks arbitrary: pre mn acc)
  case Nil
  show ?case by simp
next
  case (Cons k rest)
  let ?full = "pre @ k # rest"
  let ?pre = "pre @ [k]"
  have full: "?pre @ rest = ?full" by simp
  have srt: "sorted_wrt key_less (?pre @ rest)" using Cons.prems(1) by simp
  have before: "\<forall>k'\<in>set pre. key_less k' k"
    using Cons.prems(1) by (simp add: sorted_wrt_append)
  have after: "\<forall>k'\<in>set rest. key_less k k'"
    using Cons.prems(1) by (simp add: sorted_wrt_append)
  have a: "\<forall>k'\<in>set pre. second_weight mn \<le> second_weight (label k')" by (rule Cons.prems(2))
  have b: "mn = min_label \<or> (\<exists>k'\<in>set pre. label k' = mn)" by (rule Cons.prems(3))
  have c: "\<forall>k'\<in>set pre. second_weight (label k') = second_weight mn
            \<longrightarrow> first_weight mn \<le> first_weight (label k')" by (rule Cons.prems(4))
  have d: "second_weight mn = - 1 \<longrightarrow> mn = min_label" by (rule Cons.prems(5))
  have pm: "pareto_minimal ?full k \<longleftrightarrow>
      (\<forall>k'\<in>set pre. second_weight (label k) < second_weight (label k') \<or> label k' = label k)"
  proof -
    have "pareto_minimal ?full k \<longleftrightarrow> (\<forall>k'\<in>set pre. \<not> dominates (label k') (label k))"
      using after later_key_not_dominating [of k]
      by (auto simp: pareto_minimal_def list_ex_iff dominates_def)
    also have "\<dots> \<longleftrightarrow>
      (\<forall>k'\<in>set pre. second_weight (label k) < second_weight (label k') \<or> label k' = label k)"
      using before earlier_key_dominates_iff [of _ k] by (auto simp: not_le)
    finally show ?thesis .
  qed
  have iff: "pareto_minimal ?full k
               \<and> (second_weight (label k) = - 1 \<longrightarrow> first_weight (label k) = 0)
             \<longleftrightarrow> improves (label k) mn"
  proof
    assume p: "pareto_minimal ?full k
               \<and> (second_weight (label k) = - 1 \<longrightarrow> first_weight (label k) = 0)"
    from b show "improves (label k) mn"
    proof
      assume s: "mn = min_label"
      show ?thesis
      proof (cases "second_weight (label k) = - 1")
        case True
        then have "first_weight (label k) = 0" using p by simp
        then show ?thesis using True s by (simp add: improves_def min_label_def)
      next
        case False
        then have "second_weight (label k) < - 1" by (rule below_sentinel)
        then show ?thesis using s by (simp add: improves_def min_label_def)
      qed
    next
      assume "\<exists>k'\<in>set pre. label k' = mn"
      then obtain k' where "k' \<in> set pre" and "label k' = mn" by blast
      then show ?thesis using p pm by (auto simp: improves_def)
    qed
  next
    assume i: "improves (label k) mn"
    have p1: "pareto_minimal ?full k"
      unfolding pm
    proof
      fix k'
      assume k': "k' \<in> set pre"
      have f: "first_weight (label k') \<le> first_weight (label k)"
        using before k' key_less_first_weight by blast
      show "second_weight (label k) < second_weight (label k') \<or> label k' = label k"
      proof (cases "second_weight (label k) < second_weight mn")
        case True
        then show ?thesis using a k' by auto
      next
        case False
        then have tie: "first_weight (label k) = first_weight mn"
          "second_weight (label k) = second_weight mn"
          using i by (auto simp: improves_def)
        show ?thesis
        proof (cases "second_weight (label k') = second_weight mn")
          case True
          then have "first_weight mn \<le> first_weight (label k')" using c k' by blast
          then have "first_weight (label k') = first_weight (label k)" using f tie by simp
          then have "label k' = label k" using True tie by (auto intro: label_type.expand)
          then show ?thesis by simp
        next
          case ne: False
          then have "second_weight mn < second_weight (label k')"
            using a k' by (simp add: order_less_le)
          then show ?thesis using tie by simp
        qed
      qed
    qed
    have p2: "second_weight (label k) = - 1 \<longrightarrow> first_weight (label k) = 0"
    proof
      assume m: "second_weight (label k) = - 1"
      have "\<not> second_weight (label k) < second_weight mn" using m by simp
      then have tie: "first_weight (label k) = first_weight mn"
        "second_weight (label k) = second_weight mn"
        using i by (auto simp: improves_def)
      then have "mn = min_label" using d m by simp
      then show "first_weight (label k) = 0" using tie by (simp add: min_label_def)
    qed
    show "pareto_minimal ?full k
               \<and> (second_weight (label k) = - 1 \<longrightarrow> first_weight (label k) = 0)"
      using p1 p2 by simp
  qed
  show ?case
  proof (cases "improves (label k) mn")
    case True
    have a': "\<forall>k'\<in>set ?pre. second_weight (label k) \<le> second_weight (label k')"
      using True a by (auto simp: improves_def)
    have b': "label k = min_label \<or> (\<exists>k'\<in>set ?pre. label k' = label k)"
      by simp
    have c': "\<forall>k'\<in>set ?pre. second_weight (label k') = second_weight (label k)
            \<longrightarrow> first_weight (label k) \<le> first_weight (label k')"
      using True a c by (auto simp: improves_def)
    have d': "second_weight (label k) = - 1 \<longrightarrow> label k = min_label"
    proof
      assume m: "second_weight (label k) = - 1"
      then have "\<not> second_weight (label k) < second_weight mn" by simp
      then have tie: "first_weight (label k) = first_weight mn"
        "second_weight (label k) = second_weight mn"
        using True by (auto simp: improves_def)
      then have "mn = min_label" using d m by simp
      then show "label k = min_label" using tie by (auto intro: label_type.expand)
    qed
    have "find_pareto_minima_leaf rest (label k) (acc @ [Operation DELETE k])
        = (acc @ [Operation DELETE k])
          @ map (Operation DELETE)
              (filter (\<lambda>k. pareto_minimal (?pre @ rest) k
                         \<and> (second_weight (label k) = - 1 \<longrightarrow> first_weight (label k) = 0)) rest)"
      by (rule Cons.IH [OF srt a' b' c' d'])
    then show ?thesis using True iff by (simp add: full)
  next
    case False
    have ge: "second_weight mn \<le> second_weight (label k)"
      using False by (auto simp: improves_def)
    have fk: "first_weight mn \<le> first_weight (label k)"
    proof -
      from b show ?thesis
      proof
        assume "mn = min_label"
        then show ?thesis by (simp add: min_label_def)
      next
        assume "\<exists>k'\<in>set pre. label k' = mn"
        then obtain k0 where "k0 \<in> set pre" "label k0 = mn" by blast
        then show ?thesis using before key_less_first_weight by blast
      qed
    qed
    have a': "\<forall>k'\<in>set ?pre. second_weight mn \<le> second_weight (label k')"
      using a ge by auto
    have b': "mn = min_label \<or> (\<exists>k'\<in>set ?pre. label k' = mn)"
      using b by auto
    have c': "\<forall>k'\<in>set ?pre. second_weight (label k') = second_weight mn
            \<longrightarrow> first_weight mn \<le> first_weight (label k')"
      using c fk by auto
    have "find_pareto_minima_leaf rest mn acc
        = acc @ map (Operation DELETE)
            (filter (\<lambda>k. pareto_minimal (?pre @ rest) k
                       \<and> (second_weight (label k) = - 1 \<longrightarrow> first_weight (label k) = 0)) rest)"
      by (rule Cons.IH [OF srt a' b' c' d])
    then show ?thesis using False iff by (simp add: full)
  qed
qed

text \<open>The example tree of nine keys is what the insertion of its keys into the empty tree builds.\<close>

lemma frontier_tree_built:
  "apply_updates \<lparr>LEAF_PARAMETER_K = 8, BRANCHING_PARAMETER_B = 8\<rparr> new_btree
      (map (Operation INSERT) frontier_keys) INSERTS_ONLY = Inr frontier_tree"
proof -
  have l9: "num_optimal_levels \<lparr>LEAF_PARAMETER_K = 8, BRANCHING_PARAMETER_B = 8\<rparr> 9 = 1"
    by (rule num_optimal_levels_8_8_low) simp_all
  show ?thesis
    by (simp add: apply_updates_def apply_updates_begin_def setOperationsAndComputeWeightDelta_def
      frontier_tree_def new_btree_def size_btree_def OperationBatchType_value_def
      frontier_keys_def Let_def ensure_root_def l9 rebuild_needed_def level_def level_pred_def
      weights_8_8 traits_8_8 designated_subtreesize_8_8_1 allocate_leaf_def
      update.simps
      create_subtree_from_leaves.simps create_subtrees_loop.simps
      set_childid_def set_weight_def set_slotkey_def set_minimum_def uninitialized_slot_def
      key_less_def BTreeSetOrderer_def
      allocate_inner_def allocate_new_leaves_def num_subtrees_def free_node_def
      decrement_def write_updated_leaf_to_new_tree_def updates_range_def put_and_advance_def
      write_key_def set_slotuse_def hasNextLeaf_def finish_slot_def set_min_element_def
      min_element_def min_label_def update_router_def slotuse_def isleafnode_def)
qed

text \<open>
  What \<open>find_pareto_minima\<close> computes on a tree whose keys are in strictly increasing
  order and whose slot minima are the minima of their subtrees: a \<open>DELETE\<close> of every
  Pareto-minimal key, each once and in key order, except the keys whose second weight is
  the largest value of the weight type and whose first weight is not 0.
\<close>

lemma find_pareto_minima_emitted_keys:
  assumes "root s = Some r"
    and "sorted_wrt key_less (tree_keys s)"
    and "minima_ok r"
  shows "find_pareto_minima s min_label []
           = Inr (map (Operation DELETE)
                    (filter (\<lambda>k. pareto_minimal (tree_keys s) k
                               \<and> (second_weight (label k) = - 1 \<longrightarrow> first_weight (label k) = 0))
                       (tree_keys s)))"
    and "distinct (tree_keys s)"
proof -
  have keys: "tree_keys s = node_keys r" using assms(1) by (simp add: tree_keys_def)
  have srt: "sorted_wrt key_less (node_keys r)" using assms(2) keys by simp
  have low: "\<forall>k\<in>set (node_keys r). first_weight min_label \<le> first_weight (label k)"
    by (simp add: min_label_def)
  have "find_pareto_minima s min_label [] = Inr (find_pareto_minima_node r min_label [])"
    using assms(1) by (simp add: find_pareto_minima_def)
  also have "find_pareto_minima_node r min_label []
      = find_pareto_minima_leaf (node_keys r) min_label []"
    by (rule traversal_is_scan(1) [OF assms(3) sorted_first_weights [OF srt] low])
  also have "\<dots> = [] @ map (Operation DELETE)
      (filter (\<lambda>k. pareto_minimal ([] @ node_keys r) k
                 \<and> (second_weight (label k) = - 1 \<longrightarrow> first_weight (label k) = 0))
         (node_keys r))"
    by (rule scan_emits) (use srt in simp_all)
  finally show "find_pareto_minima s min_label []
           = Inr (map (Operation DELETE)
                    (filter (\<lambda>k. pareto_minimal (tree_keys s) k
                               \<and> (second_weight (label k) = - 1 \<longrightarrow> first_weight (label k) = 0))
                       (tree_keys s)))"
    using keys by simp
  show "distinct (tree_keys s)" by (rule sorted_wrt_key_less_distinct [OF assms(2)])
qed

lemma frontier_tree_minima:
  "find_pareto_minima frontier_tree min_label []
     = Inr [Operation DELETE (NodeLabel 1 (Label 11 19)), Operation DELETE (NodeLabel 2 (Label 12 17)),
            Operation DELETE (NodeLabel 4 (Label 14 13)), Operation DELETE (NodeLabel 7 (Label 17 12)),
            Operation DELETE (NodeLabel 9 (Label 19 11))]"
proof -
  let ?r = "inner_node 1
                 [inner_node_data (NodeLabel 5 (Label 15 16)) 5 (leaf_node (take 5 frontier_keys))
                    (Label 14 13),
                  inner_node_data (NodeLabel 9 (Label 19 11)) 4 (leaf_node (drop 5 frontier_keys))
                    (Label 19 11)]"
  have h1: "root frontier_tree = Some ?r" by (simp add: frontier_tree_def new_btree_def)
  have keys: "tree_keys frontier_tree = frontier_keys"
    by (simp add: tree_keys_def frontier_tree_def new_btree_def frontier_keys_def)
  have h2: "sorted_wrt key_less (tree_keys frontier_tree)"
    unfolding keys by (simp add: frontier_keys_def key_less_def BTreeSetOrderer_def)
  have h3: "minima_ok ?r" by (simp add: frontier_keys_def min_element_def)
  have f: "filter (\<lambda>k. pareto_minimal frontier_keys k
                        \<and> (second_weight (label k) = - 1 \<longrightarrow> first_weight (label k) = 0))
             frontier_keys
      = [NodeLabel 1 (Label 11 19), NodeLabel 2 (Label 12 17), NodeLabel 4 (Label 14 13),
         NodeLabel 7 (Label 17 12), NodeLabel 9 (Label 19 11)]"
    by (simp add: frontier_keys_def pareto_minimal_def dominates_def)
  show ?thesis
    using find_pareto_minima_emitted_keys(1) [OF h1 h2 h3] unfolding keys f by simp
qed

text \<open>
  C1. The sentinel is a value of the weight type: a key whose second weight is the
  largest value of the type does not improve it, and is emitted only if its first
  weight is 0.  With \<open>k = b = 8\<close>, inserting the key of node 1 with the weights
  \<open>(5, 2\<^sup>3\<^sup>2 - 1)\<close> into the empty tree gives a tree whose only key is Pareto-minimal,
  and \<open>find_pareto_minima\<close> emits nothing.  On the empty tree the root is dereferenced
  without a check.
\<close>

theorem find_pareto_minima_misses_largest_weight:
  "apply_updates \<lparr>LEAF_PARAMETER_K = 8, BRANCHING_PARAMETER_B = 8\<rparr> new_btree
      [Operation INSERT (NodeLabel 1 (Label 5 (- 1)))] INSERTS_ONLY = Inr lone_max_tree
   \<and> tree_keys lone_max_tree = [NodeLabel 1 (Label 5 (- 1))]
   \<and> pareto_minimal (tree_keys lone_max_tree) (NodeLabel 1 (Label 5 (- 1)))
   \<and> find_pareto_minima lone_max_tree min_label [] = Inr []
   \<and> find_pareto_minima (new_btree :: 32 word btree) min_label [] = Inl NullPointer"
proof -
  let ?t = "\<lparr>LEAF_PARAMETER_K = 8, BRANCHING_PARAMETER_B = 8\<rparr>"
  have l1: "num_optimal_levels ?t 1 = 0" "num_optimal_levels ?t (Suc 0) = 0"
    by (simp_all add: num_optimal_levels_def traits_8_8)
  have a: "apply_updates ?t new_btree
      [Operation INSERT (NodeLabel 1 (Label 5 (- 1)))] INSERTS_ONLY = Inr lone_max_tree"
    by (simp add: apply_updates_def apply_updates_begin_def setOperationsAndComputeWeightDelta_def
        new_btree_def size_btree_def OperationBatchType_value_def ensure_root_def
        allocate_leaf_def l1 rebuild_needed_def level_def weights_8_8 traits_8_8 Let_def
        update.simps set_childid_def uninitialized_slot_def
        update_leaf_in_current_tree_def updates_range_def put_key_def
        set_min_element_def min_element_def set_minimum_def set_slotkey_def
        lone_max_tree_def)
  have b: "tree_keys lone_max_tree = [NodeLabel 1 (Label 5 (- 1))]"
    by (simp add: tree_keys_def lone_max_tree_def new_btree_def)
  have c: "pareto_minimal (tree_keys lone_max_tree) (NodeLabel 1 (Label 5 (- 1)))"
    unfolding b by (simp add: pareto_minimal_def dominates_def)
  have d: "find_pareto_minima lone_max_tree min_label [] = Inr []"
    by (simp add: find_pareto_minima_def lone_max_tree_def new_btree_def improves_def
        min_label_def)
  have e: "find_pareto_minima (new_btree :: 32 word btree) min_label [] = Inl NullPointer"
    by (simp add: find_pareto_minima_def new_btree_def)
  show ?thesis using a b c d e by simp
qed

end
